theory Spec2Isabelle
  imports Main "HOL-Library.Word"
begin

unbundle bit_operations_syntax

section \<open>CPU counting utility: the topology core of cpucount\_linux.cpp\<close>

text \<open>
  The development embeds the functions of \<^verbatim>\<open>src/cpucount/cpucount_linux.cpp\<close> that
  decompose an initial APIC id into package, core and SMT identifiers and count the
  distinct cores and packages. C's \<^verbatim>\<open>unsigned int\<close> is \<^typ>\<open>32 word\<close>; the 16-bit
  registers \<^verbatim>\<open>%ax\<close> and \<^verbatim>\<open>%cx\<close> are \<^typ>\<open>16 word\<close>. The program is x86 code: the width
  of a field is computed by inline assembly, and the model follows the instructions
  where the source is assembly or compiles to a single instruction. A store outside an
  array and the overflow of an \<^verbatim>\<open>int\<close> counter are values of the type \<open>error\<close>.
\<close>

type_synonym u32 = "32 word"
type_synonym u16 = "16 word"

datatype error =
    BucketOverflow    \<comment> \<open>a write past \<^verbatim>\<open>CoreIDBucket[255]\<close> or \<^verbatim>\<open>packageIDBucket[255]\<close>\<close>
  | TableOverflow     \<comment> \<open>a write past \<^verbatim>\<open>tblPkgID[255]\<close>, \<^verbatim>\<open>tblCoreID[255]\<close>, \<^verbatim>\<open>tblSMTID[255]\<close>\<close>
  | SignedOverflow    \<comment> \<open>\<^verbatim>\<open>procNum++\<close> past \<^verbatim>\<open>INT_MAX\<close>\<close>

subsection \<open>find\_maskwidth\<close>

text \<open>
  \<^verbatim>\<open>bsrw\<close> scans its 16-bit source for the most significant set bit. \<open>highest_bit x n\<close>
  scans the positions below \<open>n\<close> from the top.
\<close>

primrec highest_bit :: "u16 \<Rightarrow> nat \<Rightarrow> nat" where
  "highest_bit x 0 = 0"
| "highest_bit x (Suc n) = (if bit x n then n else highest_bit x n)"

text \<open>
  \<^verbatim>\<open>bsrw src, dest\<close>: the zero flag and the new destination. With a zero source the flag
  is set and the destination keeps its value (the processors' behaviour; the code relies
  on it, since it reads \<^verbatim>\<open>%ecx\<close> after \<^verbatim>\<open>jz next\<close>).
\<close>

definition bsrw :: "u16 \<Rightarrow> u16 \<Rightarrow> bool \<times> u16" where
  "bsrw src dest =
     (if src = 0 then (True, dest) else (False, of_nat (highest_bit src 16)))"

text \<open>
  The body of \<^verbatim>\<open>find_maskwidth\<close> is three \<^verbatim>\<open>asm\<close> statements. Each is modelled on the
  pair of the registers \<^verbatim>\<open>%eax\<close> and \<^verbatim>\<open>%ecx\<close>.

  The first statement has the operands \<^verbatim>\<open>"=c" (maskWidth) : "a" (count)\<close>: it starts with
  \<^verbatim>\<open>count\<close> in \<^verbatim>\<open>%eax\<close>, saves the two registers on the stack and clears \<^verbatim>\<open>%ecx\<close>
  (\<^verbatim>\<open>xorl %ecx, %ecx\<close>).
\<close>

definition asm_clear :: "u32 \<Rightarrow> u32 \<times> u32" where
  "asm_clear count = (let eax = count; ecx = 0 in (eax, ecx))"

text \<open>
  The second statement names only the output \<^verbatim>\<open>"=c" (maskWidth)\<close> and no input: nothing
  puts \<^verbatim>\<open>count\<close> into \<^verbatim>\<open>%eax\<close> for it, and \<^verbatim>\<open>%eax\<close> holds what the code between the two
  statements leaves there. That code stores the output operand of the first statement:
  \<^verbatim>\<open>%ecx\<close> goes to \<^verbatim>\<open>maskWidth\<close>, and in the code GCC generates for the function it goes
  there through \<^verbatim>\<open>%eax\<close> (\<^verbatim>\<open>movl %ecx, %eax\<close>, then the store of \<^verbatim>\<open>%eax\<close>).
\<close>

definition store_maskWidth :: "u32 \<times> u32 \<Rightarrow> u32 \<times> u32" where
  "store_maskWidth r = (case r of (eax, ecx) \<Rightarrow> (ecx, ecx))"

text \<open>
  The instructions of the second statement: \<^verbatim>\<open>decl %eax; bsrw %ax, %cx; jz next; incw %cx\<close>.
  The 16-bit instructions leave the upper half of \<^verbatim>\<open>%ecx\<close> as it is.
\<close>

definition asm_scan :: "u32 \<times> u32 \<Rightarrow> u32 \<times> u32" where
  "asm_scan r =
     (case r of (eax, ecx) \<Rightarrow>
        (let eax = eax - 1;                             \<comment> \<open>\<^verbatim>\<open>decl %eax\<close>\<close>
             (zf, cx) = bsrw (ucast eax) (ucast ecx);   \<comment> \<open>\<^verbatim>\<open>bsrw %ax,%cx\<close>\<close>
             cx = (if zf then cx else cx + 1)           \<comment> \<open>\<^verbatim>\<open>jz next; incw %cx\<close>\<close>
         in (eax, (ecx AND 0xFFFF0000) OR ucast cx)))"

text \<open>
  The third statement holds the label \<^verbatim>\<open>next\<close> and restores the two registers from the
  stack; by then the output of the second statement, \<^verbatim>\<open>%ecx\<close>, has its value, which is
  what \<^verbatim>\<open>maskWidth\<close> receives and the function returns.
\<close>

definition find_maskwidth :: "u32 \<Rightarrow> u32" where
  "find_maskwidth countItem =
     (let count = countItem;
          maskWidth = snd (asm_scan (store_maskWidth (asm_clear count)))
      in maskWidth)"

subsection \<open>getSubID\<close>

text \<open>
  \<^verbatim>\<open>0xff << k\<close> with a count that is not a constant is the instruction \<^verbatim>\<open>shll %cl\<close>,
  which shifts by the low five bits of the count: for \<open>k < 32\<close> the result is the low 32
  bits of the shifted value, which the assignment to an \<^verbatim>\<open>unsigned int\<close> keeps, and a
  count of \<open>32 + k\<close> shifts by \<open>k\<close>. (C++ defines the shift for \<open>k < 32\<close> only.)
\<close>

definition shl :: "u32 \<Rightarrow> u32 \<Rightarrow> u32" where
  "shl v k = push_bit (unat k mod 32) v"

text \<open>
  \<^verbatim>\<open>getSubID\<close> has no failing path: it returns a value for all arguments. The result is
  a sum so that it can be said of a call that it returns a value and signals no error.
\<close>

definition getSubID :: "u32 \<Rightarrow> u32 \<Rightarrow> u32 \<Rightarrow> error + u32" where
  "getSubID fullID maxSubIDValue shiftCount =
     (let maskWidth = find_maskwidth maxSubIDValue;
          maskBits = shl 0xff shiftCount XOR shl 0xff (shiftCount + maskWidth)
      in Inr (fullID AND maskBits))"

subsection \<open>countAvailableCores and countPhysicalPacks\<close>

text \<open>
  An array the functions receive by pointer or declare locally is its contents by index.
  A local array is not initialised by the source, so its initial contents are a
  parameter of the model. Both functions run the same two loops and differ only in the
  key they compare, \<^verbatim>\<open>tblPkgID[procNum] | tblCoreID[procNum]\<close> or \<^verbatim>\<open>tblPkgID[procNum]\<close>;
  the loops are written once, over the key.

  The inner loop: \<^verbatim>\<open>for (i = 0; i < total; i++) if (key == bucket[i]) { found = 1; break; }\<close>.
  It returns \<^verbatim>\<open>i\<close> and the flag as they stand after the loop.
\<close>

type_synonym array = "nat \<Rightarrow> u32"

function bucket_scan :: "u32 \<Rightarrow> array \<Rightarrow> nat \<Rightarrow> nat \<Rightarrow> nat \<times> bool" where
  "bucket_scan key bucket total' i =
     (if i < total' then
        (if key = bucket i then (i, True)
         else bucket_scan key bucket total' (i + 1))
      else (i, False))"
  by pat_completeness auto
termination
  by (relation "measure (\<lambda>(key, bucket, total', i). total' - i)") auto

declare bucket_scan.simps [simp del]

text \<open>
  The outer loop: \<^verbatim>\<open>for (procNum = 1; procNum < numLPEnabled; procNum++)\<close>. A key that
  matched no bucket is stored at \<^verbatim>\<open>bucket[i]\<close>, where \<^verbatim>\<open>i\<close> is what the inner loop left;
  the buckets have 256 slots. \<^verbatim>\<open>procNum\<close> is an \<^verbatim>\<open>int\<close>.
\<close>

function bucket_loop :: "(nat \<Rightarrow> u32) \<Rightarrow> nat \<Rightarrow> array \<Rightarrow> nat \<Rightarrow> nat \<Rightarrow> error + int" where
  "bucket_loop key n bucket total' procNum =
     (if procNum < n then
        (case bucket_scan (key procNum) bucket total' 0 of
           (i, found) \<Rightarrow>
             if \<not> found \<and> 256 \<le> i then Inl BucketOverflow
             else if 2 ^ 31 \<le> procNum + 1 then Inl SignedOverflow
             else bucket_loop key n
                    (if found then bucket else bucket(i := key procNum))
                    (if found then total' else total' + 1)
                    (procNum + 1))
      else Inr (int total'))"
  by pat_completeness auto
termination
  by (relation "measure (\<lambda>(key, n, bucket, total', procNum). n - procNum)") auto

declare bucket_loop.simps [simp del]

definition countAvailableCores :: "array \<Rightarrow> array \<Rightarrow> array \<Rightarrow> u32 \<Rightarrow> error + int" where
  "countAvailableCores CoreIDBucket tblPkgID tblCoreID numLPEnabled =
     bucket_loop (\<lambda>procNum. tblPkgID procNum OR tblCoreID procNum) (unat numLPEnabled)
       (CoreIDBucket(0 := tblPkgID 0 OR tblCoreID 0)) 1 1"

definition countPhysicalPacks :: "array \<Rightarrow> array \<Rightarrow> u32 \<Rightarrow> error + int" where
  "countPhysicalPacks packageIDBucket tblPkgID numLPEnabled =
     bucket_loop tblPkgID (unat numLPEnabled) (packageIDBucket(0 := tblPkgID 0)) 1 1"

text \<open>A table given by its first entries, for stating examples; the rest is 0.\<close>

definition arr :: "u32 list \<Rightarrow> array" where
  "arr xs = (\<lambda>i. if i < length xs then xs ! i else 0)"

subsection \<open>The processor identification instruction\<close>

text \<open>
  A logical processor is what its \<^verbatim>\<open>cpuid\<close> instruction answers: the four registers for a
  leaf (\<^verbatim>\<open>%eax\<close>) and a sub-leaf (\<^verbatim>\<open>%ecx\<close>). The macro \<^verbatim>\<open>cpuid\<close> sets the leaf only; it
  is used for the leaves 0 and 1, which do not read the sub-leaf.
\<close>

record regs =
  eax :: u32
  ebx :: u32
  ecx :: u32
  edx :: u32

type_synonym processor = "u32 \<Rightarrow> u32 \<Rightarrow> regs"

definition CORES_PER_PROCPAK :: u32 where "CORES_PER_PROCPAK = 0xFC000000"
definition NUM_LOGICAL_BITS :: u32 where "NUM_LOGICAL_BITS = 0x00FF0000"
definition INITIAL_APIC_ID_BITS :: u32 where "INITIAL_APIC_ID_BITS = 0xFF000000"
definition MT_BIT :: u32 where "MT_BIT = 0x10000000"

definition cpuid :: "processor \<Rightarrow> u32 \<Rightarrow> regs" where
  "cpuid p in1 = p in1 0"

definition cpuid2 :: "processor \<Rightarrow> u32 \<Rightarrow> u32 \<Rightarrow> regs" where
  "cpuid2 p in1 in2 = p in1 in2"

definition get_apic_id :: "processor \<Rightarrow> u32" where
  "get_apic_id p = drop_bit 24 (ebx (cpuid p 1) AND INITIAL_APIC_ID_BITS)"

text \<open>The \<^verbatim>\<open>unsigned int a\<close> is returned as an \<^verbatim>\<open>int\<close>.\<close>

definition get_max_input_value :: "processor \<Rightarrow> int" where
  "get_max_input_value p = sint (eax (cpuid p 0))"

text \<open>The vendor words are \<^verbatim>\<open>"Genu"\<close>, \<^verbatim>\<open>"ineI"\<close>, \<^verbatim>\<open>"ntel"\<close>, low byte first.\<close>

definition GenuineIntel :: "processor \<Rightarrow> u32" where
  "GenuineIntel p =
     (let venB = push_bit 24 0x75 OR push_bit 16 0x6E OR push_bit 8 0x65 OR (0x47 :: u32);
          venD = push_bit 24 0x49 OR push_bit 16 0x65 OR push_bit 8 0x6E OR (0x69 :: u32);
          venC = push_bit 24 0x6C OR push_bit 16 0x65 OR push_bit 8 0x74 OR (0x6E :: u32);
          r = cpuid p 0
      in if ebx r = venB \<and> edx r = venD \<and> ecx r = venC then 1 else 0)"

definition MTSupported :: "processor \<Rightarrow> int" where
  "MTSupported p =
     (if GenuineIntel p \<noteq> 0 then
        (let max = get_max_input_value p in
         if max \<ge> 1 then uint (edx (cpuid p 1) AND MT_BIT) else 0)
      else 0)"

definition logicalProcessorsPerPackage :: "processor \<Rightarrow> int" where
  "logicalProcessorsPerPackage p =
     (if MTSupported p = 0 then 1
      else uint (drop_bit 16 (ebx (cpuid p 1) AND NUM_LOGICAL_BITS)))"

definition multiCoresPerProcPak :: "processor \<Rightarrow> int" where
  "multiCoresPerProcPak p =
     (let max = get_max_input_value p in
      if max \<ge> 4 then uint (drop_bit 26 (eax (cpuid2 p 4 0) AND CORES_PER_PROCPAK) + 1)
      else 1)"

subsection \<open>The affinity mask\<close>

text \<open>
  A \<^verbatim>\<open>cpu_set_t\<close> is a set of processor numbers below \<^verbatim>\<open>CPU_SETSIZE\<close>. The kernel keeps one
  mask for the process; \<^verbatim>\<open>sched_setaffinity\<close> installs a mask the kernel accepts and
  returns 0, or leaves the mask as it is and returns \<open>-1\<close>. Which masks the kernel
  accepts is part of the machine. \<^verbatim>\<open>sched_getaffinity\<close> reads the mask in effect.
\<close>

type_synonym cpu_set_t = "nat set"

definition CPU_SETSIZE :: nat where "CPU_SETSIZE = 1024"

definition CPU_ZERO :: cpu_set_t where "CPU_ZERO = {}"

definition CPU_SET :: "nat \<Rightarrow> cpu_set_t \<Rightarrow> cpu_set_t" where
  "CPU_SET cpu s = (if cpu < CPU_SETSIZE then insert cpu s else s)"

definition CPU_ISSET :: "nat \<Rightarrow> cpu_set_t \<Rightarrow> bool" where
  "CPU_ISSET cpu s \<longleftrightarrow> cpu < CPU_SETSIZE \<and> cpu \<in> s"

record machine =
  nprocs_conf :: int                        \<comment> \<open>\<^verbatim>\<open>sysconf(_SC_NPROCESSORS_CONF)\<close>\<close>
  processors :: "nat \<Rightarrow> processor"          \<comment> \<open>the logical processors, by number\<close>
  running_on :: nat                         \<comment> \<open>the processor the caller runs on at entry\<close>
  accepts :: "cpu_set_t \<Rightarrow> bool"            \<comment> \<open>the masks \<^verbatim>\<open>sched_setaffinity\<close> accepts\<close>

definition misc_sched_getaffinity :: "cpu_set_t \<Rightarrow> cpu_set_t" where
  "misc_sched_getaffinity affinity = affinity"

definition misc_sched_setaffinity :: "machine \<Rightarrow> cpu_set_t \<Rightarrow> cpu_set_t \<Rightarrow> int \<times> cpu_set_t" where
  "misc_sched_setaffinity sys affinity_mask affinity =
     (if accepts sys affinity_mask then (0, affinity_mask) else (- 1, affinity))"

subsection \<open>CPUCount\<close>

datatype capability =
    USER_CONFIG_ISSUE
  | SINGLE_CORE_AND_HT_NOT_CAPABLE
  | SINGLE_CORE_AND_HT_ENABLED
  | SINGLE_CORE_AND_HT_DISABLED
  | MULTI_CORE_AND_HT_NOT_CAPABLE
  | MULTI_CORE_AND_HT_ENABLED
  | MULTI_CORE_AND_HT_DISABLED

text \<open>The values the macros of these names stand for.\<close>

fun status_flag :: "capability \<Rightarrow> int" where
  "status_flag USER_CONFIG_ISSUE = 0"
| "status_flag SINGLE_CORE_AND_HT_NOT_CAPABLE = 1"
| "status_flag SINGLE_CORE_AND_HT_ENABLED = 2"
| "status_flag SINGLE_CORE_AND_HT_DISABLED = 3"
| "status_flag MULTI_CORE_AND_HT_NOT_CAPABLE = 4"
| "status_flag MULTI_CORE_AND_HT_ENABLED = 5"
| "status_flag MULTI_CORE_AND_HT_DISABLED = 6"

text \<open>
  The classification at the end of \<^verbatim>\<open>CPUCount\<close>. \<^verbatim>\<open>*totAvailCore\<close>, \<^verbatim>\<open>*totPhysPack\<close> and
  \<^verbatim>\<open>logicalPerCore\<close> are \<^verbatim>\<open>int\<close>s; \<^verbatim>\<open>numLPEnabled\<close> is unsigned, so in
  \<^verbatim>\<open>numLPEnabled > *totAvailCore\<close> the count of cores is converted to \<^verbatim>\<open>unsigned int\<close>.
\<close>

definition classify :: "int \<Rightarrow> int \<Rightarrow> int \<Rightarrow> u32 \<Rightarrow> capability" where
  "classify totAvailCore totPhysPack logicalPerCore numLPEnabled =
     (if totAvailCore > totPhysPack then
        (if logicalPerCore = 1 then MULTI_CORE_AND_HT_NOT_CAPABLE
         else if numLPEnabled > word_of_int totAvailCore then MULTI_CORE_AND_HT_ENABLED
         else MULTI_CORE_AND_HT_DISABLED)
      else
        (if logicalPerCore = 1 then SINGLE_CORE_AND_HT_NOT_CAPABLE
         else if numLPEnabled > word_of_int totAvailCore then SINGLE_CORE_AND_HT_ENABLED
         else SINGLE_CORE_AND_HT_DISABLED))"

text \<open>
  The three tables are local arrays of 256 entries that the source does not initialise:
  an entry is \<open>None\<close> until the loop stores into it. The locals also hold the count
  \<^verbatim>\<open>numLPEnabled\<close>; with them goes the affinity mask of the process.
\<close>

record locals =
  tblPkgID :: "nat \<rightharpoonup> u32"
  tblCoreID :: "nat \<rightharpoonup> u32"
  tblSMTID :: "nat \<rightharpoonup> u32"
  numLPEnabled :: u32
  affinity :: cpu_set_t

text \<open>
  What the uninitialised memory holds: the values read from table entries never stored
  into, and the initial contents of the two bucket arrays.
\<close>

record stack =
  pkg_garbage :: array
  core_garbage :: array
  CoreIDBucket0 :: array
  packageIDBucket0 :: array

definition contents :: "array \<Rightarrow> (nat \<rightharpoonup> u32) \<Rightarrow> array" where
  "contents garbage tbl = (\<lambda>i. case tbl i of Some v \<Rightarrow> v | None \<Rightarrow> garbage i)"

text \<open>C's division of two \<^verbatim>\<open>int\<close>s truncates towards zero.\<close>

definition c_div :: "int \<Rightarrow> int \<Rightarrow> int" where
  "c_div a b = sgn a * sgn b * (\<bar>a\<bar> div \<bar>b\<bar>)"

text \<open>
  The body of the \<^verbatim>\<open>while\<close> loop for a processor the process was pinned to: the thread
  now runs on processor \<open>j\<close>, whose APIC id it reads. A store at an index from 256 on is
  outside the tables. The text collected in \<^verbatim>\<open>procData\<close> for the report, and the
  \<^verbatim>\<open>affinityMask\<close> printed in it, are not modelled.
\<close>

definition probe_one :: "machine \<Rightarrow> int \<Rightarrow> int \<Rightarrow> int \<Rightarrow> nat \<Rightarrow> locals \<Rightarrow> error + locals" where
  "probe_one sys logicalPerPack corePerPack logicalPerCore j s =
     (let apicID = get_apic_id (processors sys j) in
      case getSubID apicID (word_of_int logicalPerCore) 0 of
        Inl e \<Rightarrow> Inl e
      | Inr smt \<Rightarrow>
          if 256 \<le> j then Inl TableOverflow
          else
            (case getSubID apicID (word_of_int corePerPack)
                    (find_maskwidth (word_of_int logicalPerCore)) of
               Inl e \<Rightarrow> Inl e
             | Inr core \<Rightarrow>
                 (let packageIDMask = shl 0xff (find_maskwidth (word_of_int logicalPerPack))
                  in Inr (s\<lparr>tblSMTID := (tblSMTID s)(j \<mapsto> smt),
                            tblCoreID := (tblCoreID s)(j \<mapsto> core),
                            tblPkgID := (tblPkgID s)(j \<mapsto> apicID AND packageIDMask),
                            numLPEnabled := numLPEnabled s + 1\<rparr>))))"

function probe_loop :: "machine \<Rightarrow> int \<Rightarrow> int \<Rightarrow> int \<Rightarrow> nat \<Rightarrow> locals \<Rightarrow> error + locals" where
  "probe_loop sys logicalPerPack corePerPack logicalPerCore j s =
     (if int j < nprocs_conf sys then
        (let currentCPU = CPU_SET j CPU_ZERO in
         case misc_sched_setaffinity sys currentCPU (affinity s) of
           (stat, aff) \<Rightarrow>
             if stat = 0 then
               (case probe_one sys logicalPerPack corePerPack logicalPerCore j
                       (s\<lparr>affinity := aff\<rparr>) of
                  Inl e \<Rightarrow> Inl e
                | Inr s' \<Rightarrow> probe_loop sys logicalPerPack corePerPack logicalPerCore (j + 1) s')
             else probe_loop sys logicalPerPack corePerPack logicalPerCore (j + 1)
                    (s\<lparr>affinity := aff\<rparr>))
      else Inr s)"
  by pat_completeness auto
termination
  by (relation "measure (\<lambda>(sys, lpp, cpp, lpc, j, s). nat (nprocs_conf sys) - j)") auto

declare probe_loop.simps [simp del]

text \<open>
  What \<^verbatim>\<open>CPUCount\<close> leaves behind: the value it returns, the three counts behind its
  pointer arguments, its locals and the affinity mask of the process.
\<close>

record outcome =
  status :: capability
  totAvailLogical :: int
  totAvailCore :: int
  totPhysPack :: int
  final :: locals

definition CPUCount :: "machine \<Rightarrow> stack \<Rightarrow> cpu_set_t \<Rightarrow> int \<Rightarrow> error + outcome" where
  "CPUCount sys stk affinity0 totAvailLogical0 =
     (let s0 = \<lparr>tblPkgID = Map.empty, tblCoreID = Map.empty, tblSMTID = Map.empty,
                numLPEnabled = 0, affinity = affinity0\<rparr>;
          early = \<lparr>status = USER_CONFIG_ISSUE, totAvailLogical = totAvailLogical0,
                   totAvailCore = 1, totPhysPack = 1, final = s0\<rparr>;
          numProcessors = nprocs_conf sys;
          sysAffinityMask = misc_sched_getaffinity affinity0
      in if \<not> list_all (\<lambda>i. CPU_ISSET i sysAffinityMask) [0..<nat numProcessors]
         then Inr early
         else
           (let logicalPerPack = logicalProcessorsPerPackage (processors sys (running_on sys));
                corePerPack = multiCoresPerProcPak (processors sys (running_on sys))
            in if corePerPack \<le> 0 then Inr early
               else
                 (let logicalPerCore = c_div logicalPerPack corePerPack in
                  case probe_loop sys logicalPerPack corePerPack logicalPerCore 0 s0 of
                    Inl e \<Rightarrow> Inl e
                  | Inr s1 \<Rightarrow>
                      (let s = s1\<lparr>affinity :=
                                   snd (misc_sched_setaffinity sys sysAffinityMask (affinity s1))\<rparr>;
                           pkg = contents (pkg_garbage stk) (tblPkgID s);
                           core = contents (core_garbage stk) (tblCoreID s)
                       in case countAvailableCores (CoreIDBucket0 stk) pkg core (numLPEnabled s) of
                            Inl e \<Rightarrow> Inl e
                          | Inr cores \<Rightarrow>
                              (case countPhysicalPacks (packageIDBucket0 stk) pkg (numLPEnabled s) of
                                 Inl e \<Rightarrow> Inl e
                               | Inr packs \<Rightarrow>
                                   Inr \<lparr>status = classify cores packs logicalPerCore (numLPEnabled s),
                                        totAvailLogical = sint (numLPEnabled s),
                                        totAvailCore = cores,
                                        totPhysPack = packs,
                                        final = s\<rparr>)))))"

subsection \<open>The classification rule of the specification\<close>

text \<open>
  The rule as the specification words it, over four integers: the counts of distinct
  cores and of distinct packages, the logical processors per core and the count of
  enabled logical processors. It is compared with \<open>classify\<close> below.
\<close>

definition classify_spec :: "int \<Rightarrow> int \<Rightarrow> int \<Rightarrow> int \<Rightarrow> capability" where
  "classify_spec distinctCoreCount distinctPackageCount logicalPerCore enabledLogicalCount =
     (if distinctCoreCount > distinctPackageCount then
        (if logicalPerCore = 1 then MULTI_CORE_AND_HT_NOT_CAPABLE
         else if enabledLogicalCount > distinctCoreCount then MULTI_CORE_AND_HT_ENABLED
         else MULTI_CORE_AND_HT_DISABLED)
      else
        (if logicalPerCore = 1 then SINGLE_CORE_AND_HT_NOT_CAPABLE
         else if enabledLogicalCount > distinctCoreCount then SINGLE_CORE_AND_HT_ENABLED
         else SINGLE_CORE_AND_HT_DISABLED))"

subsection \<open>A machine for examples\<close>

text \<open>
  A processor that identifies as \<^verbatim>\<open>GenuineIntel\<close>, supports the leaves up to 4 and reports
  Hyper-Threading, with a given APIC id, count of logical processors per package and
  count of cores per package.
\<close>

definition genuine_intel :: "u32 \<Rightarrow> u32 \<Rightarrow> u32 \<Rightarrow> processor" where
  "genuine_intel apic logical cores =
     (\<lambda>leaf sub.
        if leaf = 0 then \<lparr>eax = 4, ebx = 0x756E6547, ecx = 0x6C65746E, edx = 0x49656E69\<rparr>
        else if leaf = 1 then
          \<lparr>eax = 0, ebx = push_bit 24 apic OR push_bit 16 logical, ecx = 0, edx = MT_BIT\<rparr>
        else if leaf = 4 \<and> sub = 0 then
          \<lparr>eax = push_bit 26 (cores - 1), ebx = 0, ecx = 0, edx = 0\<rparr>
        else \<lparr>eax = 0, ebx = 0, ecx = 0, edx = 0\<rparr>)"

text \<open>
  Three logical processors of one package with two cores and four logical processors
  per package; the APIC ids are 0, 1 and 2. The masks the kernel accepts are a parameter.
\<close>

definition one_package :: "(cpu_set_t \<Rightarrow> bool) \<Rightarrow> machine" where
  "one_package acc =
     \<lparr>nprocs_conf = 3, processors = (\<lambda>j. genuine_intel (of_nat j) 4 2), running_on = 1,
      accepts = acc\<rparr>"

text \<open>Uninitialised memory that holds \<open>0xDEADBEEF\<close> in the tables.\<close>

definition junk :: stack where
  "junk = \<lparr>pkg_garbage = (\<lambda>_. 0xDEADBEEF), core_garbage = (\<lambda>_. 0xDEADBEEF),
           CoreIDBucket0 = (\<lambda>_. 0), packageIDBucket0 = (\<lambda>_. 0)\<rparr>"

section \<open>Properties\<close>

subsection \<open>The mask width\<close>


lemma highest_bit_numeral:
  "highest_bit x (numeral k) =
     (if bit x (pred_numeral k) then pred_numeral k else highest_bit x (pred_numeral k))"
  by (simp add: numeral_eq_Suc)

lemma ucast_minus_1: "(ucast (- 1 :: u32) :: u16) = - 1"
  by (rule bit_word_eqI) (simp add: bit_ucast_iff)

lemma asm_scan_0: "asm_scan (0, 0) = (- 1, 16)"
  by (simp add: asm_scan_def bsrw_def Let_def ucast_minus_1 highest_bit_numeral)

lemma find_maskwidth_16: "find_maskwidth countItem = 16"
  by (simp add: find_maskwidth_def asm_clear_def store_maskWidth_def asm_scan_0 Let_def)

text \<open>
  Claim C3 on the code. The instructions are those of the ceiling of the binary
  logarithm (decrement, scan for the highest set bit, increment), but they are spread
  over two \<^verbatim>\<open>asm\<close> statements, and the second one does not name \<^verbatim>\<open>count\<close> as an input:
  the decrement works on the \<open>0\<close> that the store of the first output left in \<^verbatim>\<open>%eax\<close>,
  the scan of \<open>0xFFFF\<close> finds bit 15, and the width is 16 whatever the count is. So
  \<^verbatim>\<open>find_maskwidth(1)\<close> is not 0, \<^verbatim>\<open>find_maskwidth(5)\<close> is not 3, and
  \<open>2 ^ (width - 1) < 5\<close> fails for the width of 5.
\<close>

theorem find_maskwidth_ignores_count:
  "find_maskwidth countItem = 16
   \<and> find_maskwidth 1 = 16 \<and> find_maskwidth 2 = 16 \<and> find_maskwidth 3 = 16
   \<and> find_maskwidth 4 = 16 \<and> find_maskwidth 5 = 16
   \<and> \<not> 2 ^ (unat (find_maskwidth 5) - 1) < unat (5 :: u32)"
  by (simp add: find_maskwidth_16)

subsection \<open>Extracting a sub-identifier\<close>


lemma getSubID_eq:
  "getSubID fullID maxSubIDValue shiftCount =
     Inr (fullID AND (shl 0xff shiftCount XOR shl 0xff (shiftCount + find_maskwidth maxSubIDValue)))"
  by (simp add: getSubID_def Let_def)

lemma shl_small: "unat k < 32 \<Longrightarrow> shl v k = push_bit (unat k) v"
  by (simp add: shl_def)

lemma getSubID_defined:
  assumes "unat shiftCount + unat (find_maskwidth maxSubIDValue) < 32"
  shows "getSubID fullID maxSubIDValue shiftCount =
           Inr (fullID AND (push_bit (unat shiftCount) 0xff
                XOR push_bit (unat shiftCount + unat (find_maskwidth maxSubIDValue)) 0xff))"
proof -
  from assms have "unat (shiftCount + find_maskwidth maxSubIDValue)
      = unat shiftCount + unat (find_maskwidth maxSubIDValue)"
    by (simp add: unat_word_ariths)
  with assms show ?thesis
    by (simp add: getSubID_eq shl_small)
qed






text \<open>
  Claim C6, as the code has it. Neither function has an error path for a zero count:
  \<^verbatim>\<open>find_maskwidth(0)\<close> is 16, as for every count; \<^verbatim>\<open>getSubID\<close> with a zero count masks
  with that width and returns a value. For \<open>shiftCount < 16\<close> both shifts stay below
  32 bits.
\<close>

theorem getSubID_zero_count:
  "find_maskwidth 0 = 16
   \<and> (unat shiftCount < 16 \<longrightarrow>
        getSubID rawId 0 shiftCount =
          Inr (rawId AND (push_bit (unat shiftCount) 0xff XOR push_bit (unat shiftCount + 16) 0xff)))"
  using getSubID_defined [of shiftCount 0 rawId]
  by (simp add: find_maskwidth_16)

text \<open>The theorem at \<open>rawId = 0xAB\<close>, \<open>shiftCount = 0\<close>.\<close>

theorem getSubID_zero_count_witness:
  "unat (0 :: u32) < 16 \<and> find_maskwidth 0 = 16 \<and> getSubID 0xAB 0 0 = Inr 0xAB"
  using getSubID_zero_count [of 0 "0xAB"] by simp

text \<open>A zero count is answered with a value, not with an error.\<close>

theorem zero_count_counterexample:
  "find_maskwidth 0 = 16 \<and> getSubID 0xAB 0 0 = Inr 0xAB"
  by (simp add: find_maskwidth_16 getSubID_eq shl_def)

subsection \<open>Counting distinct identifiers\<close>

lemma bucket_scan_found:
  "snd (bucket_scan key bucket total' i) \<longleftrightarrow> (\<exists>m. i \<le> m \<and> m < total' \<and> bucket m = key)"
proof (induction key bucket total' i rule: bucket_scan.induct)
  case (1 key bucket total' i)
  show ?case
  proof (cases "i < total'")
    case False
    then show ?thesis by (subst bucket_scan.simps) auto
  next
    case True
    show ?thesis
    proof (cases "key = bucket i")
      case True
      with \<open>i < total'\<close> show ?thesis by (subst bucket_scan.simps) auto
    next
      case False
      with \<open>i < total'\<close> 1 have "snd (bucket_scan key bucket total' (i + 1))
          \<longleftrightarrow> (\<exists>m. i + 1 \<le> m \<and> m < total' \<and> bucket m = key)"
        by simp
      moreover have "(\<exists>m. i + 1 \<le> m \<and> m < total' \<and> bucket m = key)
          \<longleftrightarrow> (\<exists>m. i \<le> m \<and> m < total' \<and> bucket m = key)"
        using False by (metis Suc_eq_plus1 Suc_leD Suc_leI le_neq_implies_less)
      ultimately show ?thesis
        using False \<open>i < total'\<close> by (subst bucket_scan.simps) simp
    qed
  qed
qed

lemma bucket_scan_not_found:
  "\<not> snd (bucket_scan key bucket total' i) \<Longrightarrow> i \<le> total' \<Longrightarrow>
     fst (bucket_scan key bucket total' i) = total'"
proof (induction key bucket total' i rule: bucket_scan.induct)
  case (1 key bucket total' i)
  show ?case
  proof (cases "i < total'")
    case False
    with 1(3) show ?thesis by (subst bucket_scan.simps) simp
  next
    case True
    show ?thesis
    proof (cases "key = bucket i")
      case True
      with \<open>i < total'\<close> 1(2) show ?thesis by (subst (asm) bucket_scan.simps) simp
    next
      case False
      with True 1(2) have "\<not> snd (bucket_scan key bucket total' (i + 1))"
        by (subst (asm) bucket_scan.simps) simp
      with 1(1) True False have "fst (bucket_scan key bucket total' (i + 1)) = total'"
        by simp
      with True False show ?thesis by (subst bucket_scan.simps) simp
    qed
  qed
qed

lemma bucket_loop_counts:
  assumes "bucket ` {..<total'} = key ` {..<procNum}" "inj_on bucket {..<total'}"
    and "0 < procNum" "procNum \<le> n \<or> n = 0" "n \<le> 256"
  shows "bucket_loop key n bucket total' procNum = Inr (int (card (key ` {..<max n procNum})))"
  using assms
proof (induction key n bucket total' procNum rule: bucket_loop.induct)
  case (1 key n bucket total' procNum)
  have tot: "total' = card (key ` {..<procNum})"
    using 1(2,3) by (metis card_image card_lessThan)
  show ?case
  proof (cases "procNum < n")
    case False
    with 1(5) have "max n procNum = procNum" by auto
    with False tot show ?thesis by (subst bucket_loop.simps) simp
  next
    case True
    obtain i found where sc: "bucket_scan (key procNum) bucket total' 0 = (i, found)"
      by (cases "bucket_scan (key procNum) bucket total' 0")
    have le: "total' \<le> procNum"
      unfolding tot by (metis card_image_le card_lessThan finite_lessThan)
    have pn: "\<not> (2::nat) ^ 31 \<le> procNum + 1"
      using True 1(6) by simp
    have img: "key ` {..<procNum + 1} = insert (key procNum) (key ` {..<procNum})"
      by (simp add: lessThan_Suc)
    have mx: "max n (procNum + 1) = max n procNum"
      using True by simp
    have fnd: "found \<longleftrightarrow> key procNum \<in> bucket ` {..<total'}"
    proof -
      from bucket_scan_found [of "key procNum" bucket total' 0] sc
      have "found \<longleftrightarrow> (\<exists>m. m < total' \<and> bucket m = key procNum)" by simp
      also have "\<dots> \<longleftrightarrow> key procNum \<in> bucket ` {..<total'}"
        by (force simp: image_iff)
      finally show ?thesis .
    qed
    have nxt: "0 < procNum + 1" "procNum + 1 \<le> n \<or> n = 0"
      using True by simp_all
    show ?thesis
    proof (cases found)
      case True
      have ok: "\<not> (\<not> found \<and> 256 \<le> i)" using True by simp
      from True fnd 1(2) img have inv: "bucket ` {..<total'} = key ` {..<procNum + 1}"
        by auto
      have eqs: "(if found then bucket else bucket(i := key procNum)) = bucket"
        "(if found then total' else total' + 1) = total'"
        using True by simp_all
      note rec = 1(1) [OF \<open>procNum < n\<close> sc [symmetric] ok pn, unfolded eqs, OF inv 1(3) nxt 1(6)]
      have step: "bucket_loop key n bucket total' procNum
          = bucket_loop key n bucket total' (procNum + 1)"
        using sc pn True \<open>procNum < n\<close> by (subst bucket_loop.simps) simp
      show ?thesis by (simp only: step rec mx)
    next
      case False
      from False fnd have new: "key procNum \<notin> bucket ` {..<total'}" by simp
      from False sc bucket_scan_not_found [of "key procNum" bucket total' 0]
      have i: "i = total'" by simp
      have ok: "\<not> (\<not> found \<and> 256 \<le> i)"
        using i le \<open>procNum < n\<close> 1(6) by simp
      let ?b = "bucket(i := key procNum)"
      have inv: "?b ` {..<total' + 1} = key ` {..<procNum + 1}"
      proof -
        have "?b ` {..<total' + 1} = insert (key procNum) (bucket ` {..<total'})"
          unfolding i by (auto simp: lessThan_Suc image_iff)
        with 1(2) img show ?thesis by simp
      qed
      have inj: "inj_on ?b {..<total' + 1}"
        unfolding inj_on_def
      proof (intro ballI impI)
        fix x y
        assume xy: "x \<in> {..<total' + 1}" "y \<in> {..<total' + 1}" "?b x = ?b y"
        show "x = y"
        proof (cases "x = total'"; cases "y = total'")
          assume "x \<noteq> total'" "y \<noteq> total'"
          with xy i have "x < total'" "y < total'" "bucket x = bucket y" by auto
          with 1(3) show ?thesis by (auto simp: inj_on_def)
        next
          assume "x = total'" "y \<noteq> total'"
          with xy i have "y < total'" "bucket y = key procNum" by auto
          with new show ?thesis by force
        next
          assume "x \<noteq> total'" "y = total'"
          with xy i have "x < total'" "bucket x = key procNum" by auto
          with new show ?thesis by force
        qed simp
      qed
      have eqs: "(if found then bucket else bucket(i := key procNum)) = ?b"
        "(if found then total' else total' + 1) = total' + 1"
        using False by simp_all
      note rec = 1(1) [OF \<open>procNum < n\<close> sc [symmetric] ok pn, unfolded eqs, OF inv inj nxt 1(6)]
      have step: "bucket_loop key n bucket total' procNum
          = bucket_loop key n ?b (total' + 1) (procNum + 1)"
        using sc pn False ok \<open>procNum < n\<close> by (subst bucket_loop.simps) simp
      show ?thesis by (simp only: step rec mx)
    qed
  qed
qed

lemma bucket_loop_ge1:
  "0 < total' \<Longrightarrow> bucket_loop key n bucket total' procNum = Inr t \<Longrightarrow> 1 \<le> t"
proof (induction key n bucket total' procNum rule: bucket_loop.induct)
  case (1 key n bucket total' procNum)
  show ?case
  proof (cases "procNum < n")
    case False
    with 1(2,3) show ?thesis by (subst (asm) bucket_loop.simps) auto
  next
    case True
    obtain i found where sc: "bucket_scan (key procNum) bucket total' 0 = (i, found)"
      by (cases "bucket_scan (key procNum) bucket total' 0")
    from 1(3) True sc have unf:
      "(if \<not> found \<and> 256 \<le> i then Inl BucketOverflow
        else if 2 ^ 31 \<le> procNum + 1 then Inl SignedOverflow
        else bucket_loop key n (if found then bucket else bucket(i := key procNum))
               (if found then total' else total' + 1) (procNum + 1)) = Inr t"
      by (subst (asm) bucket_loop.simps) simp
    then have ok: "\<not> (\<not> found \<and> 256 \<le> i)" "\<not> (2::nat) ^ 31 \<le> procNum + 1"
      by (auto split: if_splits)
    with unf have rec: "bucket_loop key n (if found then bucket else bucket(i := key procNum))
               (if found then total' else total' + 1) (procNum + 1) = Inr t"
      by (simp split: if_splits)
    have pos: "0 < (if found then total' else total' + 1)"
      using 1(2) by simp
    from 1(1) [OF True sc [symmetric] ok pos rec] show ?thesis .
  qed
qed

lemma bucket_loop_start:
  assumes "n \<le> 256"
  shows "bucket_loop key n (b(0 := key 0)) 1 1 = Inr (int (card (key ` {..<max n 1})))"
proof -
  have "(b(0 := key 0)) ` {..<1} = key ` {..<1}" by (simp add: lessThan_Suc)
  moreover have "inj_on (b(0 := key 0)) {..<1}" by (simp add: lessThan_Suc)
  moreover have "1 \<le> n \<or> n = 0" by auto
  ultimately show ?thesis
    using assms bucket_loop_counts [of "b(0 := key 0)" 1 key 1 n] by simp
qed

lemma countAvailableCores_card:
  assumes "unat n \<le> 256"
  shows "countAvailableCores b pkg core n
           = Inr (int (card ((\<lambda>p. pkg p OR core p) ` {..<max (unat n) 1})))"
  unfolding countAvailableCores_def
  using bucket_loop_start [OF assms, of "\<lambda>p. pkg p OR core p" b] by simp

lemma countPhysicalPacks_card:
  assumes "unat n \<le> 256"
  shows "countPhysicalPacks b pkg n = Inr (int (card (pkg ` {..<max (unat n) 1})))"
  unfolding countPhysicalPacks_def
  using bucket_loop_start [OF assms, of pkg b] by simp

lemma lessThan_4: "{..<(4::nat)} = {0, 1, 2, 3}"
  by (auto simp: lessThan_def)

lemma ex_cores_4:
  "countAvailableCores b (arr [0, 0, 2, 2]) (arr [0, 1, 0, 1]) 4 = Inr 4"
  by (simp add: countAvailableCores_card lessThan_4 arr_def)

lemma ex_cores_2:
  "countAvailableCores b (arr [0, 0, 1, 1]) (arr [0, 1, 0, 1]) 4 = Inr 2"
  by (simp add: countAvailableCores_card lessThan_4 arr_def)

lemma ex_packs_2:
  "countPhysicalPacks b (arr [0, 0, 1, 1]) 4 = Inr 2"
  by (simp add: countPhysicalPacks_card lessThan_4 arr_def)

text \<open>
  Claim C1, as the code has it. For a table of 1 to 256 records \<^verbatim>\<open>countAvailableCores\<close>
  returns the number of distinct values of \<^verbatim>\<open>tblPkgID[p] | tblCoreID[p]\<close> and
  \<^verbatim>\<open>countPhysicalPacks\<close> the number of distinct values of \<^verbatim>\<open>tblPkgID[p]\<close>, whatever the
  buckets held before; two tables with the same set of keys get the same count, so the
  order of the records does not matter. With package ids 0, 0, 1, 1 and core ids
  0, 1, 0, 1 the keys are 0, 1, 1, 1: the core count is 2 and the package count is 2.
  With the package id in a bit of its own (0, 0, 2, 2) the four keys differ and the core
  count is 4. Two records with equal keys count as one core.
\<close>

theorem bucket_counts_distinct:
  "(1 \<le> unat n \<and> unat n \<le> 256 \<longrightarrow>
      countAvailableCores b pkg core n
        = Inr (int (card ((\<lambda>p. pkg p OR core p) ` {..<unat n})))
    \<and> countPhysicalPacks b' pkg n = Inr (int (card (pkg ` {..<unat n}))))
   \<and> (1 \<le> unat n \<and> unat n \<le> 256 \<and> 1 \<le> unat m \<and> unat m \<le> 256
        \<and> (\<lambda>p. pkg p OR core p) ` {..<unat n} = (\<lambda>p. pkg2 p OR core2 p) ` {..<unat m}
      \<longrightarrow> countAvailableCores b pkg core n = countAvailableCores b2 pkg2 core2 m)
   \<and> (1 \<le> unat n \<and> unat n \<le> 256 \<and> 1 \<le> unat m \<and> unat m \<le> 256
        \<and> pkg ` {..<unat n} = pkg2 ` {..<unat m}
      \<longrightarrow> countPhysicalPacks b' pkg n = countPhysicalPacks b2 pkg2 m)
   \<and> countAvailableCores b (arr [0, 0, 1, 1]) (arr [0, 1, 0, 1]) 4 = Inr 2
   \<and> countAvailableCores b (arr [0, 0, 2, 2]) (arr [0, 1, 0, 1]) 4 = Inr 4
   \<and> countPhysicalPacks b' (arr [0, 0, 1, 1]) 4 = Inr 2
   \<and> (pkg 0 OR core 0 = pkg 1 OR core 1 \<longrightarrow> countAvailableCores b pkg core 2 = Inr 1)"
proof -
  have mx: "max k 1 = k" if "1 \<le> k" for k :: nat
    using that by simp
  have two: "countAvailableCores b pkg core 2 = Inr 1" if "pkg 0 OR core 0 = pkg 1 OR core 1"
    using that by (simp add: countAvailableCores_card lessThan_Suc)
  show ?thesis
    using two ex_cores_4 [of b] ex_cores_2 [of b] ex_packs_2 [of b']
    by (simp add: countAvailableCores_card countPhysicalPacks_card mx)
qed

text \<open>The theorem at the table of four records with distinct keys.\<close>

theorem bucket_counts_distinct_witness:
  "1 \<le> unat (4 :: u32) \<and> unat (4 :: u32) \<le> 256
   \<and> countAvailableCores (\<lambda>_. 0) (arr [0, 0, 2, 2]) (arr [0, 1, 0, 1]) 4
       = Inr (int (card ((\<lambda>p. arr [0, 0, 2, 2] p OR arr [0, 1, 0, 1] p) ` {..<unat (4 :: u32)})))
   \<and> countPhysicalPacks (\<lambda>_. 0) (arr [0, 0, 2, 2]) 4
       = Inr (int (card (arr [0, 0, 2, 2] ` {..<unat (4 :: u32)})))
   \<and> countAvailableCores (\<lambda>_. 0) (arr [0, 0, 2, 2]) (arr [0, 1, 0, 1]) 4 = Inr 4"
proof -
  have r: "1 \<le> unat (4 :: u32) \<and> unat (4 :: u32) \<le> 256" by simp
  note t = bucket_counts_distinct [of 4 "\<lambda>_. 0" "arr [0, 0, 2, 2]" "arr [0, 1, 0, 1]" "\<lambda>_. 0"]
  from t [THEN conjunct1, THEN mp, OF r]
    t [THEN conjunct2, THEN conjunct2, THEN conjunct2, THEN conjunct2, THEN conjunct1] r
  show ?thesis by (auto simp only:)
qed

text \<open>
  The table with package ids 0, 0, 1, 1 and core ids 0, 1, 0, 1 has two distinct keys,
  not four: the ids are combined by \<^verbatim>\<open>|\<close> as they stand.
\<close>

theorem core_count_example_counterexample:
  "countAvailableCores (\<lambda>_. 0) (arr [0, 0, 1, 1]) (arr [0, 1, 0, 1]) 4 = Inr 2
   \<and> countAvailableCores (\<lambda>_. 0) (arr [0, 0, 1, 1]) (arr [0, 1, 0, 1]) 4 \<noteq> Inr 4"
  by (simp add: ex_cores_2)

text \<open>
  Claim C8, as the code has it. When the two tables hold what the probe stores, the
  APIC id of each record under a package mask and under a core mask, the package id is
  the key under the package mask; so there are at least as many distinct keys as
  distinct package ids, and the core count is at least the package count.
\<close>

theorem cores_ge_packs_masked:
  "1 \<le> unat n \<and> unat n \<le> 256
   \<and> (\<forall>p < unat n. pkg p = apic p AND packageIDMask \<and> core p = apic p AND coreIDMask)
   \<longrightarrow> (\<exists>cores packs. countAvailableCores b pkg core n = Inr cores
          \<and> countPhysicalPacks b' pkg n = Inr packs \<and> packs \<le> cores)"
proof
  assume a: "1 \<le> unat n \<and> unat n \<le> 256
   \<and> (\<forall>p < unat n. pkg p = apic p AND packageIDMask \<and> core p = apic p AND coreIDMask)"
  let ?key = "\<lambda>p. pkg p OR core p"
  have "pkg p = ?key p AND packageIDMask" if "p < unat n" for p
  proof -
    from a that have "pkg p = apic p AND packageIDMask" "core p = apic p AND coreIDMask"
      by simp_all
    then show ?thesis
      by (simp add: bit_eq_iff bit_and_iff bit_or_iff) blast
  qed
  then have "pkg ` {..<unat n} = (\<lambda>k. k AND packageIDMask) ` (?key ` {..<unat n})"
    by (auto simp: image_iff)
  then have "card (pkg ` {..<unat n}) \<le> card (?key ` {..<unat n})"
    by (simp add: card_image_le)
  moreover from a have "max (unat n) 1 = unat n" by simp
  ultimately show "\<exists>cores packs. countAvailableCores b pkg core n = Inr cores
          \<and> countPhysicalPacks b' pkg n = Inr packs \<and> packs \<le> cores"
    using a by (simp add: countAvailableCores_card countPhysicalPacks_card)
qed

text \<open>The theorem at the APIC ids 0 and 3 with package mask \<open>0xFE\<close> and core mask \<open>0x01\<close>.\<close>

theorem cores_ge_packs_masked_witness:
  "1 \<le> unat (2 :: u32) \<and> unat (2 :: u32) \<le> 256
   \<and> (\<exists>cores packs. countAvailableCores (\<lambda>_. 0) (arr [0, 2]) (arr [0, 1]) 2 = Inr cores
          \<and> countPhysicalPacks (\<lambda>_. 0) (arr [0, 2]) 2 = Inr packs \<and> packs \<le> cores)"
proof -
  have r: "1 \<le> unat (2 :: u32) \<and> unat (2 :: u32) \<le> 256
     \<and> (\<forall>p < unat (2 :: u32). arr [0, 2] p = arr [0, 3] p AND 0xFE
            \<and> arr [0, 1] p = arr [0, 3] p AND 0x01)"
    by (simp add: arr_def less_Suc_eq)
  from cores_ge_packs_masked [of 2 "arr [0, 2]" "arr [0, 3]" "0xFE" "arr [0, 1]" "0x01"
      "\<lambda>_. 0" "\<lambda>_. 0", THEN mp, OF r] r
  show ?thesis by (auto simp only:)
qed

text \<open>
  For arbitrary tables the key does not determine the package id: the records
  (package 0, core 1) and (package 1, core 0) have the one key 1 and two package ids.
\<close>

theorem cores_ge_packs_counterexample:
  "countAvailableCores (\<lambda>_. 0) (arr [0, 1]) (arr [1, 0]) 2 = Inr 1
   \<and> countPhysicalPacks (\<lambda>_. 0) (arr [0, 1]) 2 = Inr 2"
  by (simp add: countAvailableCores_card countPhysicalPacks_card lessThan_Suc arr_def)

subsection \<open>The probe\<close>

lemma unat_drop_bit_less:
  fixes x :: u32
  assumes "unat x < 2 ^ (k + m)"
  shows "unat (drop_bit k x) < 2 ^ m"
proof -
  have "unat (drop_bit k x) = drop_bit k (unat x)"
    by (rule unat_drop_bit_eq)
  also have "\<dots> = unat x div 2 ^ k"
    by (rule drop_bit_eq_div)
  finally have "unat (drop_bit k x) = unat x div 2 ^ k" .
  moreover from assms have "unat x < 2 ^ m * 2 ^ k"
    by (simp add: power_add mult.commute)
  then have "unat x div 2 ^ k < 2 ^ m"
    by (rule less_mult_imp_div_less)
  ultimately show ?thesis by simp
qed

lemma multiCoresPerProcPak_range: "1 \<le> multiCoresPerProcPak p \<and> multiCoresPerProcPak p \<le> 64"
proof (cases "get_max_input_value p \<ge> 4")
  case False
  then show ?thesis by (simp add: multiCoresPerProcPak_def)
next
  case True
  define a where "a = eax (cpuid2 p 4 0) AND CORES_PER_PROCPAK"
  have "unat a < 2 ^ (26 + 6)"
    using unsigned_less [of a, where 'a = nat] by simp
  then have "unat (drop_bit 26 a) < 2 ^ 6"
    by (rule unat_drop_bit_less)
  then have small: "unat (drop_bit 26 a) < 64" by simp
  then have "unat (drop_bit 26 a + 1) = unat (drop_bit 26 a) + 1"
    by (simp add: unat_word_ariths)
  with small have "1 \<le> unat (drop_bit 26 a + 1) \<and> unat (drop_bit 26 a + 1) \<le> 64"
    by simp
  then have "int 1 \<le> int (unat (drop_bit 26 a + 1)) \<and> int (unat (drop_bit 26 a + 1)) \<le> int 64"
    by (simp only: of_nat_le_iff)
  then have "1 \<le> uint (drop_bit 26 a + 1) \<and> uint (drop_bit 26 a + 1) \<le> 64"
    by simp
  with True show ?thesis by (simp add: multiCoresPerProcPak_def a_def)
qed

lemma logicalProcessorsPerPackage_range:
  "0 \<le> logicalProcessorsPerPackage p \<and> logicalProcessorsPerPackage p \<le> 255"
proof (cases "MTSupported p = 0")
  case True
  then show ?thesis by (simp add: logicalProcessorsPerPackage_def)
next
  case False
  define b where "b = ebx (cpuid p 1) AND NUM_LOGICAL_BITS"
  have "b \<le> 0x00FF0000"
    unfolding NUM_LOGICAL_BITS_def b_def by (rule word_and_le1)
  then have "unat b < 2 ^ (16 + 8)" by (simp add: word_le_nat_alt)
  then have "unat (drop_bit 16 b) < 2 ^ 8"
    by (rule unat_drop_bit_less)
  then have "int (unat (drop_bit 16 b)) < int (2 ^ 8)"
    by (simp only: of_nat_less_iff)
  then have "uint (drop_bit 16 b) \<le> 255"
    by simp
  with False show ?thesis by (simp add: logicalProcessorsPerPackage_def b_def)
qed

lemma c_div_nonneg: "0 \<le> a \<Longrightarrow> 0 < b \<Longrightarrow> c_div a b = a div b"
  by (cases "a = 0") (simp_all add: c_div_def)

lemma unat_word_of_int_small:
  assumes "0 \<le> k" "k < 2 ^ 32"
  shows "unat (word_of_int k :: u32) = nat k"
proof -
  have "uint (word_of_int k :: u32) = k"
    using assms by (simp add: uint_word_of_int take_bit_int_eq_self)
  then show ?thesis by (simp add: unat_eq_nat_uint del: nat_uint_eq)
qed

lemma probe_one_eq:
  assumes "j < 256"
  shows "probe_one sys lpp cpp lpc j s =
    Inr (s\<lparr>tblSMTID := (tblSMTID s)(j \<mapsto>
               projr (getSubID (get_apic_id (processors sys j)) (word_of_int lpc) 0)),
           tblCoreID := (tblCoreID s)(j \<mapsto>
               projr (getSubID (get_apic_id (processors sys j)) (word_of_int cpp)
                       (find_maskwidth (word_of_int lpc)))),
           tblPkgID := (tblPkgID s)(j \<mapsto>
               get_apic_id (processors sys j)
                 AND shl 0xff (find_maskwidth (word_of_int lpp))),
           numLPEnabled := numLPEnabled s + 1\<rparr>)"
  using assms by (simp add: probe_one_def Let_def getSubID_eq)

lemma CPU_SET_singleton: "j < 256 \<Longrightarrow> CPU_SET j CPU_ZERO = {j}"
  by (simp add: CPU_SET_def CPU_ZERO_def CPU_SETSIZE_def)

lemma probe_loop_done:
  "\<not> int j < nprocs_conf sys \<Longrightarrow> probe_loop sys lpp cpp lpc j s = Inr s"
  by (subst probe_loop.simps) simp

lemma probe_loop_step:
  assumes "int j < nprocs_conf sys"
  shows "probe_loop sys lpp cpp lpc j s =
     (if accepts sys (CPU_SET j CPU_ZERO) then
        (case probe_one sys lpp cpp lpc j (s\<lparr>affinity := CPU_SET j CPU_ZERO\<rparr>) of
           Inl e \<Rightarrow> Inl e
         | Inr s' \<Rightarrow> probe_loop sys lpp cpp lpc (j + 1) s')
      else probe_loop sys lpp cpp lpc (j + 1) s)"
  using assms
  by (subst probe_loop.simps) (simp add: misc_sched_setaffinity_def Let_def)

lemma probe_loop_result:
  assumes n: "nprocs_conf sys \<le> 256"
  shows "\<exists>s'. probe_loop sys lpp cpp lpc j s = Inr s'
    \<and> tblSMTID s' = (\<lambda>k. if j \<le> k \<and> int k < nprocs_conf sys \<and> accepts sys {k}
          then Some (projr (getSubID (get_apic_id (processors sys k)) (word_of_int lpc) 0))
          else tblSMTID s k)
    \<and> tblCoreID s' = (\<lambda>k. if j \<le> k \<and> int k < nprocs_conf sys \<and> accepts sys {k}
          then Some (projr (getSubID (get_apic_id (processors sys k)) (word_of_int cpp)
                             (find_maskwidth (word_of_int lpc))))
          else tblCoreID s k)
    \<and> tblPkgID s' = (\<lambda>k. if j \<le> k \<and> int k < nprocs_conf sys \<and> accepts sys {k}
          then Some (get_apic_id (processors sys k)
                       AND shl 0xff (find_maskwidth (word_of_int lpp)))
          else tblPkgID s k)
    \<and> numLPEnabled s' = numLPEnabled s
          + of_nat (card {k. j \<le> k \<and> int k < nprocs_conf sys \<and> accepts sys {k}})"
proof (induction "nat (nprocs_conf sys) - j" arbitrary: j s)
  case 0
  then have d: "\<not> int j < nprocs_conf sys" by simp
  then have none: "(j \<le> k \<and> int k < nprocs_conf sys \<and> accepts sys {k}) \<longleftrightarrow> False" for k
    by auto
  show ?case
    unfolding none probe_loop_done [OF d] by simp
next
  case (Suc m)
  then have lt: "int j < nprocs_conf sys" by simp
  with n have j: "j < 256" by simp
  let ?A = "\<lambda>j. {k. j \<le> k \<and> int k < nprocs_conf sys \<and> accepts sys {k}}"
  have fin: "finite (?A (j + 1))"
    by (rule finite_subset [of _ "{..<nat (nprocs_conf sys)}"]) auto
  from Suc(2) have m: "m = nat (nprocs_conf sys) - (j + 1)" by simp
  show ?case
  proof (cases "accepts sys {j}")
    case False
    then have A: "?A j = ?A (j + 1)"
      by (auto simp: Suc_le_eq le_less)
    have cond: "(j \<le> k \<and> int k < nprocs_conf sys \<and> accepts sys {k})
        \<longleftrightarrow> (j + 1 \<le> k \<and> int k < nprocs_conf sys \<and> accepts sys {k})" for k
      using False by (auto simp: Suc_le_eq le_less)
    have step: "probe_loop sys lpp cpp lpc j s = probe_loop sys lpp cpp lpc (j + 1) s"
      using False lt j by (simp add: probe_loop_step CPU_SET_singleton)
    from Suc(1) [OF m, of s] show ?thesis
      unfolding step A cond .
  next
    case True
    let ?s1 = "s\<lparr>affinity := {j}\<rparr>
        \<lparr>tblSMTID := (tblSMTID s)(j \<mapsto>
               projr (getSubID (get_apic_id (processors sys j)) (word_of_int lpc) 0)),
           tblCoreID := (tblCoreID s)(j \<mapsto>
               projr (getSubID (get_apic_id (processors sys j)) (word_of_int cpp)
                       (find_maskwidth (word_of_int lpc)))),
           tblPkgID := (tblPkgID s)(j \<mapsto>
               get_apic_id (processors sys j)
                 AND shl 0xff (find_maskwidth (word_of_int lpp))),
           numLPEnabled := numLPEnabled s + 1\<rparr>"
    have one: "probe_one sys lpp cpp lpc j (s\<lparr>affinity := {j}\<rparr>) = Inr ?s1"
      by (simp add: probe_one_eq [OF j])
    have step: "probe_loop sys lpp cpp lpc j s = probe_loop sys lpp cpp lpc (j + 1) ?s1"
      using True lt j one by (simp add: probe_loop_step CPU_SET_singleton)
    have A: "?A j = insert j (?A (j + 1))"
      using True lt by (auto simp: Suc_le_eq le_less)
    have "j \<notin> ?A (j + 1)" by simp
    with fin have card: "card (?A j) = Suc (card (?A (j + 1)))"
      unfolding A by (rule card_insert_disjoint)
    from Suc(1) [OF m, of ?s1] obtain s' where
      r: "probe_loop sys lpp cpp lpc (j + 1) ?s1 = Inr s'"
      and t1: "tblSMTID s' = (\<lambda>k. if j + 1 \<le> k \<and> int k < nprocs_conf sys \<and> accepts sys {k}
          then Some (projr (getSubID (get_apic_id (processors sys k)) (word_of_int lpc) 0))
          else tblSMTID ?s1 k)"
      and t2: "tblCoreID s' = (\<lambda>k. if j + 1 \<le> k \<and> int k < nprocs_conf sys \<and> accepts sys {k}
          then Some (projr (getSubID (get_apic_id (processors sys k)) (word_of_int cpp)
                             (find_maskwidth (word_of_int lpc))))
          else tblCoreID ?s1 k)"
      and t3: "tblPkgID s' = (\<lambda>k. if j + 1 \<le> k \<and> int k < nprocs_conf sys \<and> accepts sys {k}
          then Some (get_apic_id (processors sys k)
                       AND shl 0xff (find_maskwidth (word_of_int lpp)))
          else tblPkgID ?s1 k)"
      and t4: "numLPEnabled s' = numLPEnabled ?s1 + of_nat (card (?A (j + 1)))"
      by blast
    have split: "(j \<le> k \<and> int k < nprocs_conf sys \<and> accepts sys {k})
        \<longleftrightarrow> k = j \<or> (j + 1 \<le> k \<and> int k < nprocs_conf sys \<and> accepts sys {k})" for k
      using True lt by (auto simp: Suc_le_eq le_less)
    have "tblSMTID s' = (\<lambda>k. if j \<le> k \<and> int k < nprocs_conf sys \<and> accepts sys {k}
          then Some (projr (getSubID (get_apic_id (processors sys k)) (word_of_int lpc) 0))
          else tblSMTID s k)"
      unfolding t1 split by (rule ext) auto
    moreover have "tblCoreID s' = (\<lambda>k. if j \<le> k \<and> int k < nprocs_conf sys \<and> accepts sys {k}
          then Some (projr (getSubID (get_apic_id (processors sys k)) (word_of_int cpp)
                             (find_maskwidth (word_of_int lpc))))
          else tblCoreID s k)"
      unfolding t2 split by (rule ext) auto
    moreover have "tblPkgID s' = (\<lambda>k. if j \<le> k \<and> int k < nprocs_conf sys \<and> accepts sys {k}
          then Some (get_apic_id (processors sys k)
                       AND shl 0xff (find_maskwidth (word_of_int lpp)))
          else tblPkgID s k)"
      unfolding t3 split by (rule ext) auto
    moreover have "numLPEnabled s' = numLPEnabled s + of_nat (card (?A j))"
      unfolding t4 card by simp
    ultimately show ?thesis
      unfolding step using r by blast
  qed
qed

lemma probe_loop_affinity:
  assumes n: "nprocs_conf sys \<le> 256"
  shows "\<exists>s'. probe_loop sys lpp cpp lpc j s = Inr s'
    \<and> affinity s' =
        (if {k. j \<le> k \<and> int k < nprocs_conf sys \<and> accepts sys {k}} = {} then affinity s
         else {Max {k. j \<le> k \<and> int k < nprocs_conf sys \<and> accepts sys {k}}})"
proof (induction "nat (nprocs_conf sys) - j" arbitrary: j s)
  case 0
  then have d: "\<not> int j < nprocs_conf sys" by simp
  then have "{k. j \<le> k \<and> int k < nprocs_conf sys \<and> accepts sys {k}} = {}"
    by auto
  then show ?case
    unfolding probe_loop_done [OF d] by simp
next
  case (Suc m)
  then have lt: "int j < nprocs_conf sys" by simp
  with n have j: "j < 256" by simp
  let ?A = "\<lambda>j. {k. j \<le> k \<and> int k < nprocs_conf sys \<and> accepts sys {k}}"
  have fin: "finite (?A (j + 1))"
    by (rule finite_subset [of _ "{..<nat (nprocs_conf sys)}"]) auto
  from Suc(2) have m: "m = nat (nprocs_conf sys) - (j + 1)" by simp
  show ?case
  proof (cases "accepts sys {j}")
    case False
    then have A: "?A j = ?A (j + 1)"
      by (auto simp: Suc_le_eq le_less)
    have step: "probe_loop sys lpp cpp lpc j s = probe_loop sys lpp cpp lpc (j + 1) s"
      using False lt j by (simp add: probe_loop_step CPU_SET_singleton)
    from Suc(1) [OF m, of s] show ?thesis
      unfolding step A .
  next
    case True
    obtain s1 where one: "probe_one sys lpp cpp lpc j (s\<lparr>affinity := {j}\<rparr>) = Inr s1"
      and a1: "affinity s1 = {j}"
      by (simp add: probe_one_eq [OF j])
    have step: "probe_loop sys lpp cpp lpc j s = probe_loop sys lpp cpp lpc (j + 1) s1"
      using True lt j one by (simp add: probe_loop_step CPU_SET_singleton)
    have A: "?A j = insert j (?A (j + 1))"
      using True lt by (auto simp: Suc_le_eq le_less)
    from Suc(1) [OF m, of s1] obtain s' where
      r: "probe_loop sys lpp cpp lpc (j + 1) s1 = Inr s'"
      and af: "affinity s' = (if ?A (j + 1) = {} then affinity s1 else {Max (?A (j + 1))})"
      by blast
    have "affinity s' = {Max (?A j)}"
    proof (cases "?A (j + 1) = {}")
      case True
      have "?A j = {j}" by (simp only: A True)
      then have "Max (?A j) = j" by (simp only: Max_singleton)
      moreover from af True a1 have "affinity s' = {j}" by simp
      ultimately show ?thesis by (simp only:)
    next
      case False
      with fin have "Max (?A (j + 1)) \<in> ?A (j + 1)" by (rule Max_in)
      then have "j < Max (?A (j + 1))" by simp
      moreover from fin False have "Max (insert j (?A (j + 1))) = max j (Max (?A (j + 1)))"
        by (rule Max_insert)
      ultimately have "Max (?A j) = Max (?A (j + 1))"
        unfolding A by simp
      moreover from af have "affinity s' = {Max (?A (j + 1))}"
        by (simp only: False if_False)
      ultimately show ?thesis by (simp only:)
    qed
    moreover have ne: "?A j \<noteq> {}" unfolding A by simp
    ultimately have "affinity s' = (if ?A j = {} then affinity s else {Max (?A j)})"
      by (simp only: ne if_False)
    with r show ?thesis
      unfolding step by (intro exI [of _ s'] conjI)
  qed
qed

lemma classify_not_issue: "classify c p l n \<noteq> USER_CONFIG_ISSUE"
  by (simp add: classify_def)

lemma precheck_iff:
  "list_all (\<lambda>i. CPU_ISSET i M) [0..<nat np] \<longleftrightarrow> (\<forall>i < nat np. CPU_ISSET i M)"
  by (auto simp: list_all_iff)

lemma CPUCount_early:
  assumes "\<not> list_all (\<lambda>i. CPU_ISSET i M) [0..<nat (nprocs_conf sys)]"
  shows "CPUCount sys stk M t0 =
    Inr \<lparr>status = USER_CONFIG_ISSUE, totAvailLogical = t0, totAvailCore = 1, totPhysPack = 1,
         final = \<lparr>tblPkgID = Map.empty, tblCoreID = Map.empty, tblSMTID = Map.empty,
                   numLPEnabled = 0, affinity = M\<rparr>\<rparr>"
  using assms by (simp add: CPUCount_def Let_def misc_sched_getaffinity_def)

lemma accepted_card_le:
  assumes "nprocs_conf sys \<le> 256"
  shows "card {k. (0::nat) \<le> k \<and> int k < nprocs_conf sys \<and> accepts sys {k}} \<le> 256"
proof -
  have "{k. (0::nat) \<le> k \<and> int k < nprocs_conf sys \<and> accepts sys {k}} \<subseteq> {..<256}"
    using assms by auto
  then have "card {k. (0::nat) \<le> k \<and> int k < nprocs_conf sys \<and> accepts sys {k}} \<le> card {..<(256::nat)}"
    by (intro card_mono) simp_all
  then show ?thesis by simp
qed

lemma CPUCount_normal:
  assumes pre: "list_all (\<lambda>i. CPU_ISSET i M) [0..<nat (nprocs_conf sys)]"
    and n: "nprocs_conf sys \<le> 256"
  defines "lpp \<equiv> logicalProcessorsPerPackage (processors sys (running_on sys))"
    and "cpp \<equiv> multiCoresPerProcPak (processors sys (running_on sys))"
  defines "lpc \<equiv> c_div lpp cpp"
  defines "A \<equiv> {k. int k < nprocs_conf sys \<and> accepts sys {k}}"
  shows "\<exists>s cores packs aff. CPUCount sys stk M t0 =
        Inr \<lparr>status = classify cores packs lpc (of_nat (card A)),
             totAvailLogical = int (card A), totAvailCore = cores, totPhysPack = packs,
             final = s\<rparr>
    \<and> numLPEnabled s = of_nat (card A)
    \<and> countAvailableCores (CoreIDBucket0 stk)
          (contents (pkg_garbage stk) (tblPkgID s))
          (contents (core_garbage stk) (tblCoreID s)) (of_nat (card A)) = Inr cores
    \<and> countPhysicalPacks (packageIDBucket0 stk)
          (contents (pkg_garbage stk) (tblPkgID s)) (of_nat (card A)) = Inr packs
    \<and> affinity s = (if accepts sys M then M else aff)
    \<and> tblSMTID s = (\<lambda>k. if k \<in> A
          then Some (projr (getSubID (get_apic_id (processors sys k)) (word_of_int lpc) 0))
          else None)
    \<and> tblCoreID s = (\<lambda>k. if k \<in> A
          then Some (projr (getSubID (get_apic_id (processors sys k)) (word_of_int cpp)
                             (find_maskwidth (word_of_int lpc))))
          else None)
    \<and> tblPkgID s = (\<lambda>k. if k \<in> A
          then Some (get_apic_id (processors sys k)
                       AND shl 0xff (find_maskwidth (word_of_int lpp)))
          else None)
    \<and> lpc = lpp div cpp \<and> 0 \<le> lpp \<and> lpp \<le> 255 \<and> 1 \<le> cpp \<and> cpp \<le> 64 \<and> card A \<le> 256
    \<and> aff = (if A = {} then M else {Max A})"
proof -
  have cr: "1 \<le> cpp" "cpp \<le> 64"
    using multiCoresPerProcPak_range [of "processors sys (running_on sys)"]
    by (simp_all add: cpp_def)
  have lr: "0 \<le> lpp" "lpp \<le> 255"
    using logicalProcessorsPerPackage_range [of "processors sys (running_on sys)"]
    by (simp_all add: lpp_def)
  have lpc: "lpc = lpp div cpp"
    using cr lr by (simp add: lpc_def c_div_nonneg)
  have lc: "0 \<le> lpc" "lpc \<le> 255"
  proof -
    show "0 \<le> lpc" using cr lr unfolding lpc by (simp add: pos_imp_zdiv_nonneg_iff)
    have "lpp div cpp \<le> lpp div 1" using cr lr by (intro zdiv_mono2) simp_all
    then have "lpp div cpp \<le> lpp" by simp
    with lr show "lpc \<le> 255" unfolding lpc by simp
  qed
  let ?s0 = "\<lparr>tblPkgID = Map.empty, tblCoreID = Map.empty, tblSMTID = Map.empty,
               numLPEnabled = 0, affinity = M\<rparr>"
  have A: "A = {k. 0 \<le> k \<and> int k < nprocs_conf sys \<and> accepts sys {k}}"
    by (simp add: A_def)
  have inA: "(0 \<le> k \<and> int k < nprocs_conf sys \<and> accepts sys {k}) \<longleftrightarrow> k \<in> A" for k :: nat
    by (simp add: A_def)
  note res = probe_loop_result [OF n, of lpp cpp lpc 0 ?s0, unfolded inA Collect_mem_eq]
  then have "\<exists>s1. probe_loop sys lpp cpp lpc 0 ?s0 = Inr s1
      \<and> tblSMTID s1 = (\<lambda>k. if k \<in> A
          then Some (projr (getSubID (get_apic_id (processors sys k)) (word_of_int lpc) 0))
          else None)
      \<and> tblCoreID s1 = (\<lambda>k. if k \<in> A
          then Some (projr (getSubID (get_apic_id (processors sys k)) (word_of_int cpp)
                             (find_maskwidth (word_of_int lpc))))
          else None)
      \<and> tblPkgID s1 = (\<lambda>k. if k \<in> A
          then Some (get_apic_id (processors sys k)
                       AND shl 0xff (find_maskwidth (word_of_int lpp)))
          else None)
      \<and> numLPEnabled s1 = of_nat (card A)"
    by (simp cong: if_cong)
  then obtain s1 where
    loop: "probe_loop sys lpp cpp lpc 0 ?s0 = Inr s1"
    and t1: "tblSMTID s1 = (\<lambda>k. if k \<in> A
          then Some (projr (getSubID (get_apic_id (processors sys k)) (word_of_int lpc) 0))
          else None)"
    and t2: "tblCoreID s1 = (\<lambda>k. if k \<in> A
          then Some (projr (getSubID (get_apic_id (processors sys k)) (word_of_int cpp)
                             (find_maskwidth (word_of_int lpc))))
          else None)"
    and t3: "tblPkgID s1 = (\<lambda>k. if k \<in> A
          then Some (get_apic_id (processors sys k)
                       AND shl 0xff (find_maskwidth (word_of_int lpp)))
          else None)"
    and t4: "numLPEnabled s1 = of_nat (card A)"
    by (elim exE conjE) (rule that; assumption)
  from probe_loop_affinity [OF n, of lpp cpp lpc 0 ?s0, unfolded inA Collect_mem_eq] loop
  have a1: "affinity s1 = (if A = {} then M else {Max A})"
    by simp
  have cA: "card A \<le> 256"
    unfolding A using n by (rule accepted_card_le)
  then have uA: "unat (of_nat (card A) :: u32) = card A"
    by (simp add: unat_of_nat)
  have sA: "sint (of_nat (card A) :: u32) = int (card A)"
  proof -
    have "signed_take_bit 31 (int (card A)) = int (card A)"
      using cA by (intro signed_take_bit_int_eq_self) simp_all
    then show ?thesis by (simp add: signed_of_nat)
  qed
  let ?s = "s1\<lparr>affinity := snd (misc_sched_setaffinity sys M (affinity s1))\<rparr>"
  obtain cores where cores: "countAvailableCores (CoreIDBucket0 stk)
          (contents (pkg_garbage stk) (tblPkgID s1))
          (contents (core_garbage stk) (tblCoreID s1)) (of_nat (card A)) = Inr cores"
    using cA uA by (simp add: countAvailableCores_card)
  obtain packs where packs: "countPhysicalPacks (packageIDBucket0 stk)
          (contents (pkg_garbage stk) (tblPkgID s1)) (of_nat (card A)) = Inr packs"
    using cA uA by (simp add: countPhysicalPacks_card)
  have c1: "CPUCount sys stk M t0 =
      Inr \<lparr>status = classify cores packs lpc (of_nat (card A)),
           totAvailLogical = int (card A), totAvailCore = cores, totPhysPack = packs,
           final = ?s\<rparr>"
    using pre cr loop cores packs t4 sA
    by (simp add: CPUCount_def Let_def misc_sched_getaffinity_def lpp_def [symmetric]
        cpp_def [symmetric] lpc_def [symmetric])
  have c2: "affinity ?s = (if accepts sys M then M else affinity s1)"
    by (simp add: misc_sched_setaffinity_def)
  have sel: "tblSMTID ?s = tblSMTID s1" "tblCoreID ?s = tblCoreID s1"
    "tblPkgID ?s = tblPkgID s1" "numLPEnabled ?s = numLPEnabled s1"
    by simp_all
  show ?thesis
  proof (intro exI conjI)
    show "CPUCount sys stk M t0 =
      Inr \<lparr>status = classify cores packs lpc (of_nat (card A)),
           totAvailLogical = int (card A), totAvailCore = cores, totPhysPack = packs,
           final = ?s\<rparr>" by (rule c1)
    show "numLPEnabled ?s = of_nat (card A)" unfolding sel by (rule t4)
    show "countAvailableCores (CoreIDBucket0 stk)
          (contents (pkg_garbage stk) (tblPkgID ?s))
          (contents (core_garbage stk) (tblCoreID ?s)) (of_nat (card A)) = Inr cores"
      unfolding sel by (rule cores)
    show "countPhysicalPacks (packageIDBucket0 stk)
          (contents (pkg_garbage stk) (tblPkgID ?s)) (of_nat (card A)) = Inr packs"
      unfolding sel by (rule packs)
    show "affinity ?s = (if accepts sys M then M else affinity s1)" by (rule c2)
    show "tblSMTID ?s = (\<lambda>k. if k \<in> A
          then Some (projr (getSubID (get_apic_id (processors sys k)) (word_of_int lpc) 0))
          else None)" unfolding sel by (rule t1)
    show "tblCoreID ?s = (\<lambda>k. if k \<in> A
          then Some (projr (getSubID (get_apic_id (processors sys k)) (word_of_int cpp)
                             (find_maskwidth (word_of_int lpc))))
          else None)" unfolding sel by (rule t2)
    show "tblPkgID ?s = (\<lambda>k. if k \<in> A
          then Some (get_apic_id (processors sys k)
                       AND shl 0xff (find_maskwidth (word_of_int lpp)))
          else None)" unfolding sel by (rule t3)
  qed (use lpc lr cr cA a1 in simp_all)
qed

lemma uint_word_of_int_small:
  "0 \<le> k \<Longrightarrow> k < 2 ^ 32 \<Longrightarrow> uint (word_of_int k :: u32) = k"
  by (simp add: uint_word_of_int take_bit_int_eq_self)

lemma classify_eq_spec:
  assumes "0 \<le> c" "c < 2 ^ 31"
  shows "classify c p l n = classify_spec c p l (uint n)"
proof -
  have "uint (word_of_int c :: u32) = c"
    using assms by (intro uint_word_of_int_small) simp_all
  then have "word_of_int c < n \<longleftrightarrow> c < uint n"
    by (simp add: word_less_def)
  then show ?thesis
    by (simp add: classify_def classify_spec_def)
qed

lemma count_bounds:
  assumes "unat n \<le> 256" "countAvailableCores b pkg core n = Inr c"
  shows "1 \<le> c \<and> c \<le> 256"
proof -
  have "card ((\<lambda>p. pkg p OR core p) ` {..<max (unat n) 1}) \<le> card {..<max (unat n) 1}"
    by (rule card_image_le) simp
  moreover have "(0::nat) \<in> {..<max (unat n) 1}" by simp
  then have "(\<lambda>p. pkg p OR core p) ` {..<max (unat n) 1} \<noteq> {}" by blast
  then have "0 < card ((\<lambda>p. pkg p OR core p) ` {..<max (unat n) 1})"
    unfolding card_gt_0_iff by (intro conjI finite_imageI finite_lessThan)
  ultimately show ?thesis
    using assms by (auto simp: countAvailableCores_card)
qed


lemma CPUCount_cases:
  assumes "nprocs_conf sys \<le> 256"
  obtains (early) "\<not> list_all (\<lambda>i. CPU_ISSET i M) [0..<nat (nprocs_conf sys)]"
      "CPUCount sys stk M t0 =
        Inr \<lparr>status = USER_CONFIG_ISSUE, totAvailLogical = t0, totAvailCore = 1, totPhysPack = 1,
         final = \<lparr>tblPkgID = Map.empty, tblCoreID = Map.empty, tblSMTID = Map.empty,
                   numLPEnabled = 0, affinity = M\<rparr>\<rparr>"
  | (normal) s cores packs aff where
      "list_all (\<lambda>i. CPU_ISSET i M) [0..<nat (nprocs_conf sys)]"
      "CPUCount sys stk M t0 =
        Inr \<lparr>status = classify cores packs
                 (c_div (logicalProcessorsPerPackage (processors sys (running_on sys)))
                        (multiCoresPerProcPak (processors sys (running_on sys))))
                 (of_nat (card {k. int k < nprocs_conf sys \<and> accepts sys {k}})),
             totAvailLogical = int (card {k. int k < nprocs_conf sys \<and> accepts sys {k}}),
             totAvailCore = cores, totPhysPack = packs, final = s\<rparr>"
      "numLPEnabled s = of_nat (card {k. int k < nprocs_conf sys \<and> accepts sys {k}})"
      "countAvailableCores (CoreIDBucket0 stk)
          (contents (pkg_garbage stk) (tblPkgID s))
          (contents (core_garbage stk) (tblCoreID s))
          (of_nat (card {k. int k < nprocs_conf sys \<and> accepts sys {k}})) = Inr cores"
      "countPhysicalPacks (packageIDBucket0 stk)
          (contents (pkg_garbage stk) (tblPkgID s))
          (of_nat (card {k. int k < nprocs_conf sys \<and> accepts sys {k}})) = Inr packs"
      "affinity s = (if accepts sys M then M else aff)"
      "tblSMTID s = (\<lambda>k. if k \<in> {k. int k < nprocs_conf sys \<and> accepts sys {k}}
          then Some (projr (getSubID (get_apic_id (processors sys k))
             (word_of_int (c_div (logicalProcessorsPerPackage (processors sys (running_on sys)))
                        (multiCoresPerProcPak (processors sys (running_on sys))))) 0))
          else None)"
      "tblCoreID s = (\<lambda>k. if k \<in> {k. int k < nprocs_conf sys \<and> accepts sys {k}}
          then Some (projr (getSubID (get_apic_id (processors sys k))
             (word_of_int (multiCoresPerProcPak (processors sys (running_on sys))))
             (find_maskwidth (word_of_int (c_div (logicalProcessorsPerPackage (processors sys (running_on sys)))
                        (multiCoresPerProcPak (processors sys (running_on sys))))))))
          else None)"
      "tblPkgID s = (\<lambda>k. if k \<in> {k. int k < nprocs_conf sys \<and> accepts sys {k}}
          then Some (get_apic_id (processors sys k)
               AND shl 0xff (find_maskwidth (word_of_int
                  (logicalProcessorsPerPackage (processors sys (running_on sys))))))
          else None)"
      "card {k. int k < nprocs_conf sys \<and> accepts sys {k}} \<le> 256"
      "aff = (if {k. int k < nprocs_conf sys \<and> accepts sys {k}} = {} then M
              else {Max {k. int k < nprocs_conf sys \<and> accepts sys {k}}})"
proof (cases "list_all (\<lambda>i. CPU_ISSET i M) [0..<nat (nprocs_conf sys)]")
  case False
  then show ?thesis using CPUCount_early [OF False] early by blast
next
  case True
  from CPUCount_normal [OF True assms, of stk t0] show ?thesis
    by (elim exE conjE) (rule normal [OF True]; assumption)
qed

text \<open>
  Claim C2. The classification is a total function of its four arguments and its value
  is one of the six capability values. For a count of cores that is not negative (the
  counting functions return at least 1) it is the rule of the specification, read over
  the integers. \<open>(1, 1, 1, 1)\<close> is \<open>SINGLE_CORE_AND_HT_NOT_CAPABLE\<close> and \<open>(4, 2, 2, 8)\<close>
  is \<open>MULTI_CORE_AND_HT_ENABLED\<close>. Whenever \<^verbatim>\<open>CPUCount\<close> goes past its early returns, the
  status it returns is that rule applied to the three counts it hands back and the
  number of logical processors per core.
\<close>

theorem classify_total_rule:
  "(0 \<le> c \<and> c < 2 ^ 31 \<longrightarrow> classify c p l n = classify_spec c p l (uint n))
   \<and> classify c p l n \<in> {SINGLE_CORE_AND_HT_NOT_CAPABLE, SINGLE_CORE_AND_HT_ENABLED,
        SINGLE_CORE_AND_HT_DISABLED, MULTI_CORE_AND_HT_NOT_CAPABLE, MULTI_CORE_AND_HT_ENABLED,
        MULTI_CORE_AND_HT_DISABLED}
   \<and> classify 1 1 1 1 = SINGLE_CORE_AND_HT_NOT_CAPABLE
   \<and> classify 4 2 2 8 = MULTI_CORE_AND_HT_ENABLED
   \<and> (nprocs_conf sys \<le> 256 \<longrightarrow>
        (\<exists>r. CPUCount sys stk M t0 = Inr r
           \<and> (status r = USER_CONFIG_ISSUE
              \<or> status r = classify_spec (totAvailCore r) (totPhysPack r)
                   (c_div (logicalProcessorsPerPackage (processors sys (running_on sys)))
                          (multiCoresPerProcPak (processors sys (running_on sys))))
                   (totAvailLogical r))))"
proof (intro conjI impI)
  show "classify c p l n = classify_spec c p l (uint n)" if "0 \<le> c \<and> c < 2 ^ 31"
    using that by (simp add: classify_eq_spec)
  show "classify c p l n \<in> {SINGLE_CORE_AND_HT_NOT_CAPABLE, SINGLE_CORE_AND_HT_ENABLED,
        SINGLE_CORE_AND_HT_DISABLED, MULTI_CORE_AND_HT_NOT_CAPABLE, MULTI_CORE_AND_HT_ENABLED,
        MULTI_CORE_AND_HT_DISABLED}"
    by (simp add: classify_def)
  show "classify 1 1 1 1 = SINGLE_CORE_AND_HT_NOT_CAPABLE"
    by (simp add: classify_def)
  show "classify 4 2 2 8 = MULTI_CORE_AND_HT_ENABLED"
    by (simp add: classify_def)
  assume n: "nprocs_conf sys \<le> 256"
  show "\<exists>r. CPUCount sys stk M t0 = Inr r
           \<and> (status r = USER_CONFIG_ISSUE
              \<or> status r = classify_spec (totAvailCore r) (totPhysPack r)
                   (c_div (logicalProcessorsPerPackage (processors sys (running_on sys)))
                          (multiCoresPerProcPak (processors sys (running_on sys))))
                   (totAvailLogical r))"
    using n
  proof (cases rule: CPUCount_cases [where M = M and stk = stk and ?t0.0 = t0])
    case early
    then show ?thesis by simp
  next
    case (normal s cores packs aff)
    let ?A = "{k. int k < nprocs_conf sys \<and> accepts sys {k}}"
    from normal(4,10) have "1 \<le> cores \<and> cores \<le> 256"
      by (intro count_bounds [of "of_nat (card ?A)"]) (simp_all add: unat_of_nat)
    then have c: "0 \<le> cores" "cores < 2 ^ 31" by simp_all
    have "uint (of_nat (card ?A) :: u32) = int (card ?A)"
      using normal(10) by (simp add: uint_nat unat_of_nat del: of_nat_unat)
    with classify_eq_spec [OF c] normal(2) show ?thesis by simp
  qed
qed



lemma countPhysicalPacks_ge1: "countPhysicalPacks b pkg n = Inr t \<Longrightarrow> 1 \<le> t"
  unfolding countPhysicalPacks_def by (erule bucket_loop_ge1 [rotated]) simp

lemma countAvailableCores_ge1: "countAvailableCores b pkg core n = Inr t \<Longrightarrow> 1 \<le> t"
  unfolding countAvailableCores_def by (erule bucket_loop_ge1 [rotated]) simp

text \<open>
  Claim C10. Whenever one of the counting functions returns, it returns at least 1; for
  up to 256 records it does return; for a record count of 0 both return 1. The counts
  \<^verbatim>\<open>CPUCount\<close> hands back are at least 1, and they are 1 on an early return.
\<close>

theorem counts_at_least_one:
  "(countAvailableCores b pkg core n = Inr t \<longrightarrow> 1 \<le> t)
   \<and> (countPhysicalPacks b' pkg n = Inr t' \<longrightarrow> 1 \<le> t')
   \<and> (unat n \<le> 256 \<longrightarrow> (\<exists>t. countAvailableCores b pkg core n = Inr t)
                          \<and> (\<exists>t. countPhysicalPacks b' pkg n = Inr t))
   \<and> countAvailableCores b pkg core 0 = Inr 1
   \<and> countPhysicalPacks b' pkg 0 = Inr 1
   \<and> (CPUCount sys stk M t0 = Inr r \<longrightarrow>
         1 \<le> totAvailCore r \<and> 1 \<le> totPhysPack r
       \<and> (status r = USER_CONFIG_ISSUE \<longrightarrow> totAvailCore r = 1 \<and> totPhysPack r = 1))"
proof (intro conjI impI)
  show "1 \<le> t" if "countAvailableCores b pkg core n = Inr t"
    using that by (rule countAvailableCores_ge1)
  show "1 \<le> t'" if "countPhysicalPacks b' pkg n = Inr t'"
    using that by (rule countPhysicalPacks_ge1)
  show "\<exists>t. countAvailableCores b pkg core n = Inr t" if "unat n \<le> 256"
    using that by (simp add: countAvailableCores_card)
  show "\<exists>t. countPhysicalPacks b' pkg n = Inr t" if "unat n \<le> 256"
    using that by (simp add: countPhysicalPacks_card)
  show "countAvailableCores b pkg core 0 = Inr 1"
    by (simp add: countAvailableCores_card lessThan_Suc)
  show "countPhysicalPacks b' pkg 0 = Inr 1"
    by (simp add: countPhysicalPacks_card lessThan_Suc)
  assume r: "CPUCount sys stk M t0 = Inr r"
  then show "1 \<le> totAvailCore r"
    by (auto simp: CPUCount_def Let_def split: if_splits sum.splits
        dest: countAvailableCores_ge1)
  from r show "1 \<le> totPhysPack r"
    by (auto simp: CPUCount_def Let_def split: if_splits sum.splits
        dest: countPhysicalPacks_ge1)
  assume "status r = USER_CONFIG_ISSUE"
  with r show "totAvailCore r = 1"
    by (auto simp: CPUCount_def Let_def classify_not_issue split: if_splits sum.splits)
  from r \<open>status r = USER_CONFIG_ISSUE\<close> show "totPhysPack r = 1"
    by (auto simp: CPUCount_def Let_def classify_not_issue split: if_splits sum.splits)
qed

subsection \<open>Runs on the example machine\<close>

lemma intel_lpp: "logicalProcessorsPerPackage (genuine_intel 1 4 2) = 4"
  by (simp add: logicalProcessorsPerPackage_def MTSupported_def GenuineIntel_def
      get_max_input_value_def cpuid_def genuine_intel_def MT_BIT_def NUM_LOGICAL_BITS_def Let_def)

lemma intel_cpp: "multiCoresPerProcPak (genuine_intel 1 4 2) = 2"
  by (simp add: multiCoresPerProcPak_def get_max_input_value_def cpuid_def cpuid2_def
      genuine_intel_def CORES_PER_PROCPAK_def Let_def)

lemma intel_apic:
  "get_apic_id (genuine_intel 0 4 2) = 0"
  "get_apic_id (genuine_intel 1 4 2) = 1"
  "get_apic_id (genuine_intel 2 4 2) = 2"
  by (simp_all add: get_apic_id_def cpuid_def genuine_intel_def INITIAL_APIC_ID_BITS_def)

lemma c_div_4_2: "c_div 4 2 = 2"
  by (simp add: c_div_def)

text \<open>
  On this machine every width is 16: the SMT id is taken with the mask
  \<open>0xff XOR (0xff << 16)\<close>, the core id with \<open>(0xff << 16) XOR (0xff << 32)\<close>, where the
  second shift is by 32, and the package id with \<open>0xff << 16\<close>.
\<close>

lemma sub_ids:
  "getSubID 0 2 0 = Inr 0" "getSubID 1 2 0 = Inr 1" "getSubID 2 2 0 = Inr 2"
  "getSubID 0 2 16 = Inr 0" "getSubID 1 2 16 = Inr 1" "getSubID 2 2 16 = Inr 2"
  by (simp_all add: getSubID_eq shl_def find_maskwidth_16)

lemma pkg_ids:
  "(0 :: u32) AND shl 0xff 16 = 0" "(1 :: u32) AND shl 0xff 16 = 0"
  "(2 :: u32) AND shl 0xff 16 = 0"
  by (simp_all add: shl_def)

lemma one_package_sel:
  "nprocs_conf (one_package acc) = 3"
  "processors (one_package acc) k = genuine_intel (of_nat k) 4 2"
  "running_on (one_package acc) = 1"
  "accepts (one_package acc) = acc"
  by (simp_all add: one_package_def)

lemma junk_sel:
  "pkg_garbage junk = (\<lambda>_. 0xDEADBEEF)" "core_garbage junk = (\<lambda>_. 0xDEADBEEF)"
  "CoreIDBucket0 junk = (\<lambda>_. 0)" "packageIDBucket0 junk = (\<lambda>_. 0)"
  by (simp_all add: junk_def)

lemma precheck_3: "list_all (\<lambda>i. CPU_ISSET i {0, 1, 2}) [0..<nat 3]"
proof -
  have "\<forall>i < nat 3. CPU_ISSET i {0, 1, 2}"
  proof (intro allI impI)
    fix i :: nat
    assume "i < nat 3"
    then have "i = 0 \<or> i = 1 \<or> i = 2" by auto
    then show "CPU_ISSET i {0, 1, 2}"
      by (auto simp: CPU_ISSET_def CPU_SETSIZE_def)
  qed
  then show ?thesis by (simp only: precheck_iff)
qed

lemma lt3: "int k < 3 \<longleftrightarrow> k = 0 \<or> k = 1 \<or> k = 2"
  by auto

lemma accepted_skip0: "{k. int k < 3 \<and> {k} \<noteq> {0::nat}} = {1, 2}"
  by (auto simp: lt3)

lemma accepted_all: "{k::nat. int k < 3 \<and> True} = {0, 1, 2}"
  by (auto simp: lt3)

lemma lessThan_two: "{..<(2::nat)} = {0, 1}"
  by auto

lemma lessThan_three: "{..<(3::nat)} = {0, 1, 2}"
  by auto

text \<open>
  The run in which the kernel refuses the mask \<open>{0}\<close> and accepts every other one: the
  records of the processors 1 and 2 are stored at the indices 1 and 2, the count of
  enabled processors is 2, and the counting functions read the indices 0 and 1.
\<close>

lemma pin0_fails_run:
  "\<exists>s. CPUCount (one_package (\<lambda>m. m \<noteq> {0})) junk {0, 1, 2} 0 =
     Inr \<lparr>status = SINGLE_CORE_AND_HT_DISABLED, totAvailLogical = 2, totAvailCore = 2,
          totPhysPack = 2, final = s\<rparr>
   \<and> numLPEnabled s = 2 \<and> affinity s = {0, 1, 2}
   \<and> tblPkgID s = (\<lambda>k. if k \<in> {1, 2} then Some 0 else None)
   \<and> tblCoreID s = (\<lambda>k. if k \<in> {1, 2} then Some (if k = 2 then 2 else 1) else None)
   \<and> tblSMTID s = (\<lambda>k. if k \<in> {1, 2} then Some (if k = 2 then 2 else 1) else None)"
proof -
  let ?sys = "one_package (\<lambda>m. m \<noteq> {0})"
  have n: "nprocs_conf ?sys \<le> 256" by (simp add: one_package_sel)
  then show ?thesis
  proof (cases rule: CPUCount_cases [where M = "{0, 1, 2}" and stk = junk and ?t0.0 = 0])
    case early
    then show ?thesis using precheck_3 by (simp add: one_package_sel)
  next
    case (normal s cores packs aff)
    have run: "processors ?sys (running_on ?sys) = genuine_intel 1 4 2"
      by (simp add: one_package_sel)
    have A: "{k. int k < nprocs_conf ?sys \<and> accepts ?sys {k}} = {1, 2}"
      by (auto simp: one_package_sel)
    note n7 = normal(7) [unfolded run A intel_lpp intel_cpp c_div_4_2]
    note n8 = normal(8) [unfolded run A intel_lpp intel_cpp c_div_4_2]
    note n9 = normal(9) [unfolded run A intel_lpp intel_cpp c_div_4_2]
    have pk: "tblPkgID s = (\<lambda>k. if k \<in> {1, 2} then Some 0 else None)"
      unfolding n9
      by (rule ext) (auto simp: one_package_sel intel_apic find_maskwidth_16 pkg_ids)
    have co: "tblCoreID s = (\<lambda>k. if k \<in> {1, 2} then Some (if k = 2 then 2 else 1) else None)"
      unfolding n8
      by (rule ext) (auto simp: one_package_sel intel_apic find_maskwidth_16 sub_ids)
    have sm: "tblSMTID s = (\<lambda>k. if k \<in> {1, 2} then Some (if k = 2 then 2 else 1) else None)"
      unfolding n7
      by (rule ext) (auto simp: one_package_sel intel_apic sub_ids)
    have nl: "numLPEnabled s = 2"
      unfolding normal(3) A by simp
    have af: "affinity s = {0, 1, 2}"
      unfolding normal(6) by (simp add: one_package_sel)
    have cores: "cores = 2"
      using normal(4) unfolding A pk co
      by (simp add: countAvailableCores_card contents_def lessThan_Suc junk_sel)
    have packs: "packs = 2"
      using normal(5) unfolding A pk
      by (simp add: countPhysicalPacks_card contents_def lessThan_Suc junk_sel)
    have res: "CPUCount ?sys junk {0, 1, 2} 0 =
       Inr \<lparr>status = SINGLE_CORE_AND_HT_DISABLED, totAvailLogical = 2, totAvailCore = 2,
          totPhysPack = 2, final = s\<rparr>"
      unfolding normal(2) run A intel_lpp intel_cpp c_div_4_2 cores packs
      by (simp add: classify_def)
    show ?thesis
      by (intro exI [of _ s] conjI res nl af pk co sm)
  qed
qed

text \<open>The run in which the kernel accepts every mask.\<close>

lemma all_pins_run:
  "\<exists>s. CPUCount (one_package (\<lambda>m. True)) junk {0, 1, 2} 0 =
     Inr \<lparr>status = MULTI_CORE_AND_HT_DISABLED, totAvailLogical = 3, totAvailCore = 3,
          totPhysPack = 1, final = s\<rparr>
   \<and> numLPEnabled s = 3 \<and> affinity s = {0, 1, 2}
   \<and> tblPkgID s = (\<lambda>k. if k \<in> {0, 1, 2} then Some 0 else None)
   \<and> tblCoreID s = (\<lambda>k. if k \<in> {0, 1, 2} then Some (of_nat k) else None)
   \<and> tblSMTID s = (\<lambda>k. if k \<in> {0, 1, 2} then Some (of_nat k) else None)"
proof -
  let ?sys = "one_package (\<lambda>m. True)"
  have n: "nprocs_conf ?sys \<le> 256" by (simp add: one_package_sel)
  then show ?thesis
  proof (cases rule: CPUCount_cases [where M = "{0, 1, 2}" and stk = junk and ?t0.0 = 0])
    case early
    then show ?thesis using precheck_3 by (simp add: one_package_sel)
  next
    case (normal s cores packs aff)
    have run: "processors ?sys (running_on ?sys) = genuine_intel 1 4 2"
      by (simp add: one_package_sel)
    have A: "{k. int k < nprocs_conf ?sys \<and> accepts ?sys {k}} = {0, 1, 2}"
      by (auto simp: one_package_sel)
    note n7 = normal(7) [unfolded run A intel_lpp intel_cpp c_div_4_2]
    note n8 = normal(8) [unfolded run A intel_lpp intel_cpp c_div_4_2]
    note n9 = normal(9) [unfolded run A intel_lpp intel_cpp c_div_4_2]
    have pk: "tblPkgID s = (\<lambda>k. if k \<in> {0, 1, 2} then Some 0 else None)"
      unfolding n9
      by (rule ext) (auto simp: one_package_sel intel_apic find_maskwidth_16 pkg_ids)
    have co: "tblCoreID s = (\<lambda>k. if k \<in> {0, 1, 2} then Some (of_nat k) else None)"
      unfolding n8
      by (rule ext) (auto simp: one_package_sel intel_apic find_maskwidth_16 sub_ids)
    have sm: "tblSMTID s = (\<lambda>k. if k \<in> {0, 1, 2} then Some (of_nat k) else None)"
      unfolding n7
      by (rule ext) (auto simp: one_package_sel intel_apic sub_ids)
    have nl: "numLPEnabled s = 3"
      unfolding normal(3) A by simp
    have af: "affinity s = {0, 1, 2}"
      unfolding normal(6) by (simp add: one_package_sel)
    have cores: "cores = 3"
      using normal(4) unfolding A pk co
      by (simp add: countAvailableCores_card contents_def lessThan_three lessThan_Suc junk_sel)
    have packs: "packs = 1"
      using normal(5) unfolding A pk
      by (simp add: countPhysicalPacks_card contents_def lessThan_three lessThan_Suc junk_sel)
    have res: "CPUCount ?sys junk {0, 1, 2} 0 =
       Inr \<lparr>status = MULTI_CORE_AND_HT_DISABLED, totAvailLogical = 3, totAvailCore = 3,
          totPhysPack = 1, final = s\<rparr>"
      unfolding normal(2) run A intel_lpp intel_cpp c_div_4_2 cores packs
      by (simp add: classify_def)
    show ?thesis
      by (intro exI [of _ s] conjI res nl af pk co sm)
  qed
qed


text \<open>
  The classification theorem at \<open>(4, 2, 2, 8)\<close> and at the run in which every mask is
  accepted.
\<close>

theorem classify_total_rule_witness:
  "0 \<le> (4 :: int) \<and> (4 :: int) < 2 ^ 31
   \<and> classify 4 2 2 8 = classify_spec 4 2 2 (uint (8 :: u32))
   \<and> classify 4 2 2 8 = MULTI_CORE_AND_HT_ENABLED
   \<and> nprocs_conf (one_package (\<lambda>m. True)) \<le> 256
   \<and> (\<exists>r. CPUCount (one_package (\<lambda>m. True)) junk {0, 1, 2} 0 = Inr r
          \<and> status r = MULTI_CORE_AND_HT_DISABLED
          \<and> status r = classify_spec (totAvailCore r) (totPhysPack r)
                (c_div (logicalProcessorsPerPackage
                          (processors (one_package (\<lambda>m. True)) (running_on (one_package (\<lambda>m. True)))))
                       (multiCoresPerProcPak
                          (processors (one_package (\<lambda>m. True)) (running_on (one_package (\<lambda>m. True))))))
                (totAvailLogical r))"
proof -
  let ?sys = "one_package (\<lambda>m. True)"
  note t = classify_total_rule [of 4 2 2 8 ?sys junk "{0, 1, 2}" 0]
  have r: "0 \<le> (4 :: int) \<and> (4 :: int) < 2 ^ 31" by simp
  have n: "nprocs_conf ?sys \<le> 256" by (simp add: one_package_sel)
  note a = t [THEN conjunct1, THEN mp, OF r]
  note b = t [THEN conjunct2, THEN conjunct2, THEN conjunct2, THEN conjunct1]
  from t [THEN conjunct2, THEN conjunct2, THEN conjunct2, THEN conjunct2, THEN mp, OF n]
  obtain r where both: "CPUCount ?sys junk {0, 1, 2} 0 = Inr r
      \<and> (status r = USER_CONFIG_ISSUE
              \<or> status r = classify_spec (totAvailCore r) (totPhysPack r)
                   (c_div (logicalProcessorsPerPackage (processors ?sys (running_on ?sys)))
                          (multiCoresPerProcPak (processors ?sys (running_on ?sys))))
                   (totAvailLogical r))" ..
  note run = both [THEN conjunct1] and st = both [THEN conjunct2]
  from all_pins_run run have en: "status r = MULTI_CORE_AND_HT_DISABLED" by auto
  with st have "status r = classify_spec (totAvailCore r) (totPhysPack r)
                   (c_div (logicalProcessorsPerPackage (processors ?sys (running_on ?sys)))
                          (multiCoresPerProcPak (processors ?sys (running_on ?sys))))
                   (totAvailLogical r)"
    by simp
  with run en have "\<exists>r. CPUCount ?sys junk {0, 1, 2} 0 = Inr r
          \<and> status r = MULTI_CORE_AND_HT_DISABLED
          \<and> status r = classify_spec (totAvailCore r) (totPhysPack r)
                (c_div (logicalProcessorsPerPackage (processors ?sys (running_on ?sys)))
                       (multiCoresPerProcPak (processors ?sys (running_on ?sys))))
                (totAvailLogical r)"
    by (intro exI [of _ r] conjI)
  with r a b n show ?thesis by (intro conjI) (simp_all only:)
qed




text \<open>
  The theorem on the counts at a record count of 0, at an early return (processor 1 is
  missing from the mask \<open>{0}\<close>) and at a complete run.
\<close>

theorem counts_at_least_one_witness:
  "unat (0 :: u32) \<le> 256
   \<and> countAvailableCores (\<lambda>_. 0) (arr []) (arr []) 0 = Inr 1
   \<and> countPhysicalPacks (\<lambda>_. 0) (arr []) 0 = Inr 1
   \<and> (\<exists>r. CPUCount (one_package (\<lambda>m. True)) junk {0} 0 = Inr r
          \<and> status r = USER_CONFIG_ISSUE \<and> totAvailCore r = 1 \<and> totPhysPack r = 1)
   \<and> (\<exists>r. CPUCount (one_package (\<lambda>m. True)) junk {0, 1, 2} 0 = Inr r
          \<and> 1 \<le> totAvailCore r \<and> 1 \<le> totPhysPack r)"
proof -
  let ?sys = "one_package (\<lambda>m. True)"
  have z: "unat (0 :: u32) \<le> 256" by simp
  have "\<not> list_all (\<lambda>i. CPU_ISSET i {0}) [0..<nat (nprocs_conf ?sys)]"
  proof -
    have "(1::nat) < nat (nprocs_conf ?sys) \<and> \<not> CPU_ISSET 1 {0}"
      by (simp add: one_package_sel CPU_ISSET_def)
    then have "\<not> (\<forall>i < nat (nprocs_conf ?sys). CPU_ISSET i {0})" by blast
    then show ?thesis unfolding precheck_iff .
  qed
  from CPUCount_early [OF this, of junk 0] obtain e where
    e: "CPUCount ?sys junk {0} 0 = Inr e" and es: "status e = USER_CONFIG_ISSUE"
    by simp
  note t = counts_at_least_one [of "\<lambda>_. 0" "arr []" "arr []" 0 1 "\<lambda>_. 0" 1 ?sys junk "{0}" 0 e]
  note c0 = t [THEN conjunct2, THEN conjunct2, THEN conjunct2, THEN conjunct1]
  note p0 = t [THEN conjunct2, THEN conjunct2, THEN conjunct2, THEN conjunct2, THEN conjunct1]
  note cp = t [THEN conjunct2, THEN conjunct2, THEN conjunct2, THEN conjunct2, THEN conjunct2,
      THEN mp, OF e]
  from cp es have "totAvailCore e = 1 \<and> totPhysPack e = 1" by simp
  with e es have early: "\<exists>r. CPUCount ?sys junk {0} 0 = Inr r
          \<and> status r = USER_CONFIG_ISSUE \<and> totAvailCore r = 1 \<and> totPhysPack r = 1"
    by (intro exI [of _ e]) simp
  from all_pins_run obtain r where r: "CPUCount ?sys junk {0, 1, 2} 0 = Inr r" by auto
  from counts_at_least_one [of "\<lambda>_. 0" "arr []" "arr []" 0 1 "\<lambda>_. 0" 1 ?sys junk "{0, 1, 2}" 0 r,
      THEN conjunct2, THEN conjunct2, THEN conjunct2, THEN conjunct2, THEN conjunct2,
      THEN mp, OF r]
  have "1 \<le> totAvailCore r \<and> 1 \<le> totPhysPack r" by simp
  with r have full: "\<exists>r. CPUCount ?sys junk {0, 1, 2} 0 = Inr r
          \<and> 1 \<le> totAvailCore r \<and> 1 \<le> totPhysPack r"
    by (intro exI [of _ r]) simp
  from z c0 p0 early full show ?thesis by (intro conjI)
qed

text \<open>
  Claim C9 at a run with a failed pin. The loop stores the record of processor \<open>j\<close> at
  index \<open>j\<close> and counts the records in \<^verbatim>\<open>numLPEnabled\<close>; when the pin of processor 0 is
  refused, the two records lie at the indices 1 and 2, not at 0 and 1. The counting
  functions read the indices below \<^verbatim>\<open>numLPEnabled\<close>: the entry 0, which was never
  stored into, counts as a package of its own, and the record at index 2 is not read.
  The machine has one package; \<^verbatim>\<open>CPUCount\<close> reports two and classifies it as single-core.
\<close>

theorem pin_failure_leaves_gap:
  "\<exists>r. CPUCount (one_package (\<lambda>m. m \<noteq> {0})) junk {0, 1, 2} 0 = Inr r
     \<and> numLPEnabled (final r) = 2
     \<and> dom (tblPkgID (final r)) = {1, 2}
     \<and> dom (tblPkgID (final r)) \<noteq> {..<unat (numLPEnabled (final r))}
     \<and> totPhysPack r = 2
     \<and> status r = SINGLE_CORE_AND_HT_DISABLED"
proof -
  from pin0_fails_run obtain s where
    run: "CPUCount (one_package (\<lambda>m. m \<noteq> {0})) junk {0, 1, 2} 0 =
       Inr \<lparr>status = SINGLE_CORE_AND_HT_DISABLED, totAvailLogical = 2, totAvailCore = 2,
          totPhysPack = 2, final = s\<rparr>"
    and nl: "numLPEnabled s = 2"
    and pk: "tblPkgID s = (\<lambda>k. if k \<in> {1, 2} then Some 0 else None)"
    by (elim exE conjE) (rule that)
  have d: "dom (tblPkgID s) = {1, 2}"
    unfolding pk by (auto simp: dom_def)
  have "(0::nat) \<in> {..<unat (2 :: u32)}" by simp
  then have "{1, 2} \<noteq> {..<unat (2 :: u32)}" by auto
  with run nl d show ?thesis
    by (intro exI [of _ "\<lparr>status = SINGLE_CORE_AND_HT_DISABLED, totAvailLogical = 2,
          totAvailCore = 2, totPhysPack = 2, final = s\<rparr>"]) simp
qed

end
